theory Spec2Isabelle
  imports Main "HOL-Library.Word" "HOL-Library.Char_ord" "HOL-Library.List_Lexorder"
    "HOL-Library.Multiset"
begin

section \<open>JavaScript values used by the program\<close>

text \<open>
  JavaScript numbers that the program only ever uses as integers are modelled as \<open>int\<close>
  (or \<open>nat\<close> where the source produces them as array lengths, loop counters or byte
  values). \<open>Math.floor (a / b)\<close> for a positive divisor is \<open>a div b\<close> (rounding towards
  minus infinity, as \<open>Math.floor\<close> does); \<open>Math.ceil (a / b)\<close> is written with the same
  division on the negated numerator.
\<close>

definition js_floor_div :: "int \<Rightarrow> int \<Rightarrow> int" where
  "js_floor_div a b = a div b"

definition js_ceil_div :: "int \<Rightarrow> int \<Rightarrow> int" where
  "js_ceil_div a b = - ((- a) div b)"

text \<open>
  A string is the list of its characters, each given by its code (8 bits: the key
  sequences, file names and colour sequences handled here are made of such characters;
  the two block glyphs, whose codes are larger, are given by their UTF-8 bytes). The
  escape character of the terminal control sequences is \<open>ESC\<close> (code 27).
\<close>

definition ESC :: char where "ESC = CHR 0x1B"

text \<open>
  The decimal numeral of a non-negative integer, as a template literal or string
  concatenation renders a number.
\<close>

definition digit_char :: "nat \<Rightarrow> char" where
  "digit_char d = ''0123456789'' ! d"

fun decimal :: "nat \<Rightarrow> string" where
  "decimal n = (if n < 10 then [digit_char n] else decimal (n div 10) @ [digit_char (n mod 10)])"

declare decimal.simps [simp del]

text \<open>
  Reading a \<open>Buffer\<close> (bytes) by index gives the byte as a number, and
  \<open>undefined\<close> (\<open>None\<close>) out of range. A template literal renders \<open>undefined\<close> as the
  word and a number in decimal; \<open>undefined >= n\<close> is false.
\<close>

definition js_index :: "8 word list \<Rightarrow> nat \<Rightarrow> nat option" where
  "js_index buf i = (if i < length buf then Some (unat (buf ! i)) else None)"

definition js_template :: "nat option \<Rightarrow> string" where
  "js_template v = (case v of None \<Rightarrow> ''undefined'' | Some n \<Rightarrow> decimal n)"

definition js_ge :: "nat option \<Rightarrow> nat \<Rightarrow> bool" where
  "js_ge v n = (case v of None \<Rightarrow> False | Some m \<Rightarrow> n \<le> m)"

subsection \<open>Arrays and exceptions\<close>

text \<open>
  Indexing an array out of range gives \<open>undefined\<close> (\<open>None\<close>); reading a property of
  \<open>undefined\<close> throws a \<open>TypeError\<close>, which the handlers below return as a value.
  \<open>indexOf\<close> is the index of the first occurrence (\<open>None\<close> for -1). \<open>x || d\<close> on a number
  that may be \<open>undefined\<close> or 0 is \<open>js_or\<close>.
\<close>

datatype js_error = TypeError

definition js_nth :: "'a list \<Rightarrow> int \<Rightarrow> 'a option" where
  "js_nth xs i = (if 0 \<le> i \<and> i < int (length xs) then Some (xs ! nat i) else None)"

fun indexOf :: "'a list \<Rightarrow> 'a \<Rightarrow> nat option" where
  "indexOf [] a = None"
| "indexOf (b # bs) a = (if b = a then Some 0 else map_option Suc (indexOf bs a))"

definition js_or :: "int option \<Rightarrow> int \<Rightarrow> int" where
  "js_or v d = (case v of None \<Rightarrow> d | Some n \<Rightarrow> if n = 0 then d else n)"

text \<open>
  \<open>Array.prototype.sort\<close> with a comparison function is stable, and for a consistent
  comparison function its result is the one stable sorted arrangement; the model is the
  stable insertion sort, which places an element before the first later one that does not
  compare below it.
\<close>

fun insert_sorted :: "('a \<Rightarrow> 'a \<Rightarrow> int) \<Rightarrow> 'a \<Rightarrow> 'a list \<Rightarrow> 'a list" where
  "insert_sorted cmp a [] = [a]"
| "insert_sorted cmp a (b # bs) = (if cmp a b \<le> 0 then a # b # bs else b # insert_sorted cmp a bs)"

definition js_sort :: "('a \<Rightarrow> 'a \<Rightarrow> int) \<Rightarrow> 'a list \<Rightarrow> 'a list" where
  "js_sort cmp xs = foldr (insert_sorted cmp) xs []"

subsection \<open>Strings\<close>

text \<open>
  \<open>toLowerCase\<close> on the letters A to Z (the supported extensions are ASCII, and no other
  character lowers to one of their letters). \<open>charCodeAt\<close> is \<open>NaN\<close> (\<open>None\<close>) out of
  range. \<open>slice_2_minus1\<close> is \<open>slice(2, -1)\<close>. \<open>js_split\<close> is \<open>split\<close> on a one-character
  separator.
\<close>

definition toLowerCase_char :: "char \<Rightarrow> char" where
  "toLowerCase_char c =
     (case map_of (zip ''ABCDEFGHIJKLMNOPQRSTUVWXYZ'' ''abcdefghijklmnopqrstuvwxyz'') c of
        Some l \<Rightarrow> l
      | None \<Rightarrow> c)"

definition toLowerCase :: "string \<Rightarrow> string" where
  "toLowerCase s = map toLowerCase_char s"

definition charCodeAt :: "string \<Rightarrow> nat \<Rightarrow> int option" where
  "charCodeAt s i = (if i < length s then Some (of_char (s ! i)) else None)"

definition startsWith :: "string \<Rightarrow> string \<Rightarrow> bool" where
  "startsWith s p = (take (length p) s = p)"

definition includes_char :: "string \<Rightarrow> char \<Rightarrow> bool" where
  "includes_char s c = (c \<in> set s)"

definition slice_2_minus1 :: "string \<Rightarrow> string" where
  "slice_2_minus1 s = drop 2 (butlast s)"

fun js_split :: "char \<Rightarrow> string \<Rightarrow> string list" where
  "js_split sep [] = [[]]"
| "js_split sep (c # cs) =
     (if c = sep then [] # js_split sep cs
      else (case js_split sep cs of p # ps \<Rightarrow> (c # p) # ps | [] \<Rightarrow> [[c]]))"

text \<open>
  \<open>parseInt\<close> with no radix: leading white space is skipped, then an optional sign, then
  an optional \<open>0x\<close> or \<open>0X\<close> (which selects radix 16), then the longest run of digits of the
  radix; with no digit the result is \<open>NaN\<close> (\<open>None\<close>). The value is exact here; JavaScript
  rounds it to a double, which is the same number up to \<open>2 ^ 53\<close>. Arithmetic and
  comparisons on \<open>NaN\<close>: \<open>NaN - n\<close> is \<open>NaN\<close>, and every comparison with \<open>NaN\<close> is false.
\<close>

definition isWhiteSpace :: "char \<Rightarrow> bool" where
  "isWhiteSpace c = (of_char c \<in> {9, 10, 11, 12, 13, 32, 160 :: nat})"

definition digit_value :: "nat \<Rightarrow> char \<Rightarrow> nat option" where
  "digit_value radix c =
     (let code = (of_char c :: nat);
          v = (if 48 \<le> code \<and> code \<le> 57 then Some (code - 48)
               else if 97 \<le> code \<and> code \<le> 122 then Some (code - 87)
               else if 65 \<le> code \<and> code \<le> 90 then Some (code - 55)
               else None)
      in case v of None \<Rightarrow> None | Some d \<Rightarrow> if d < radix then Some d else None)"

definition digits_value :: "nat \<Rightarrow> string \<Rightarrow> nat" where
  "digits_value radix ds =
     foldl (\<lambda>acc c. case digit_value radix c of None \<Rightarrow> acc | Some d \<Rightarrow> acc * radix + d) 0 ds"

definition parseInt :: "string \<Rightarrow> int option" where
  "parseInt s =
     (let s1 = dropWhile isWhiteSpace s;
          sign = (if take 1 s1 = ''-'' then - 1 else 1);
          s2 = (if take 1 s1 = ''-'' \<or> take 1 s1 = ''+'' then drop 1 s1 else s1);
          radix = (if take 2 s2 = ''0x'' \<or> take 2 s2 = ''0X'' then 16 else 10);
          s3 = (if take 2 s2 = ''0x'' \<or> take 2 s2 = ''0X'' then drop 2 s2 else s2);
          z = takeWhile (\<lambda>c. digit_value radix c \<noteq> None) s3
      in if z = [] then None else Some (sign * int (digits_value radix z)))"

definition js_minus :: "int option \<Rightarrow> int \<Rightarrow> int option" where
  "js_minus v n = map_option (\<lambda>m. m - n) v"

definition js_ge_int :: "int option \<Rightarrow> int \<Rightarrow> bool" where
  "js_ge_int v n = (case v of None \<Rightarrow> False | Some m \<Rightarrow> n \<le> m)"

definition js_lt_int :: "int option \<Rightarrow> int \<Rightarrow> bool" where
  "js_lt_int v n = (case v of None \<Rightarrow> False | Some m \<Rightarrow> m < n)"

subsection \<open>Paths\<close>

text \<open>
  \<open>path.extname\<close> of a single path component (a name as \<open>readdirSync\<close> returns it, with
  no separator): the part from the last dot on, and the empty string when there is no dot,
  when the only dot is the first character, or for the name \<open>..\<close>. \<open>path.join\<close> of a
  normalised directory and a single component.
\<close>

definition extname :: "string \<Rightarrow> string" where
  "extname p =
     (let ext = CHR ''.'' # rev (takeWhile (\<lambda>c. c \<noteq> CHR ''.'') (rev p))
      in if CHR ''.'' \<notin> set p \<or> length ext = length p \<or> p = ''..'' then [] else ext)"

definition path_join :: "string \<Rightarrow> string \<Rightarrow> string" where
  "path_join dir file = (if dir = ''/'' then dir @ file else dir @ ''/'' @ file)"

section \<open>generate.js: imageToData\<close>

text \<open>
  The two glyphs are the UTF-8 encodings of U+2580 (upper half block) and U+2584 (lower
  half block), as the source file spells them.
\<close>

definition UPPER_HALF_BLOCK :: string where
  "UPPER_HALF_BLOCK = [CHR 0xE2, CHR 0x96, CHR 0x80]"

definition LOWER_HALF_BLOCK :: string where
  "LOWER_HALF_BLOCK = [CHR 0xE2, CHR 0x96, CHR 0x84]"

text \<open>The objects pushed onto \<open>cells\<close>: \<open>{x, y, char, ansi}\<close>.\<close>

record cell =
  cell_x :: nat
  cell_y :: nat
  cell_char :: string
  cell_ansi :: string

text \<open>
  The argument of \<open>imageToData\<close>: the raw buffer \<open>data\<close> and \<open>info.height\<close>,
  \<open>info.width\<close>, \<open>info.channels\<close>.
\<close>

record imageData =
  data :: "8 word list"
  info_height :: nat
  info_width :: nat
  info_channels :: nat

definition maxCells :: nat where "maxCells = 100000"

text \<open>
  The body of the inner loop up to the test \<open>char !== ' '\<close> (lines 53 to 75): the glyph
  and the colour sequence chosen for column \<open>x\<close> of the row pair \<open>(y, y + 1)\<close>.
\<close>

definition pixel_pair :: "imageData \<Rightarrow> nat \<Rightarrow> nat \<Rightarrow> string \<times> string" where
  "pixel_pair img y x =
     (let upperIndex = (y * info_width img + x) * info_channels img;
          lowerIndex = ((y + 1) * info_width img + x) * info_channels img;
          upperA = (if info_channels img = 4 then js_index (data img) (upperIndex + 3) else Some 255);
          lowerA = (if info_channels img = 4 then js_index (data img) (lowerIndex + 3) else Some 255)
      in if js_ge upperA 128 \<and> js_ge lowerA 128 then
           (UPPER_HALF_BLOCK,
            [ESC] @ ''[38;2;'' @ js_template (js_index (data img) upperIndex) @ '';''
              @ js_template (js_index (data img) (upperIndex + 1)) @ '';''
              @ js_template (js_index (data img) (upperIndex + 2)) @ ''m''
            @ [ESC] @ ''[48;2;'' @ js_template (js_index (data img) lowerIndex) @ '';''
              @ js_template (js_index (data img) (lowerIndex + 1)) @ '';''
              @ js_template (js_index (data img) (lowerIndex + 2)) @ ''m'')
         else if js_ge upperA 128 then
           (UPPER_HALF_BLOCK,
            [ESC] @ ''[38;2;'' @ js_template (js_index (data img) upperIndex) @ '';''
              @ js_template (js_index (data img) (upperIndex + 1)) @ '';''
              @ js_template (js_index (data img) (upperIndex + 2)) @ ''m'')
         else if js_ge lowerA 128 then
           (LOWER_HALF_BLOCK,
            [ESC] @ ''[38;2;'' @ js_template (js_index (data img) lowerIndex) @ '';''
              @ js_template (js_index (data img) (lowerIndex + 1)) @ '';''
              @ js_template (js_index (data img) (lowerIndex + 2)) @ ''m'')
         else ('' '', ''''))"

text \<open>
  A loop either executes \<open>return\<close> (\<open>Returned\<close>) or runs to its end and hands its
  variables on (\<open>Continue\<close>).
\<close>

datatype ('r, 's) flow = Returned 'r | Continue 's

text \<open>
  The inner loop \<open>for (let x = 0; x < width; x++)\<close>, from column \<open>x\<close> on, with the
  current \<open>cells\<close> and \<open>cellCount\<close>.
\<close>

function scan_columns :: "imageData \<Rightarrow> nat \<Rightarrow> nat \<Rightarrow> cell list \<Rightarrow> nat \<Rightarrow> (cell list, cell list \<times> nat) flow" where
  "scan_columns img y x cells cellCount =
     (if x < info_width img then
        (case pixel_pair img y x of (char, ansi) \<Rightarrow>
           if char \<noteq> '' '' then
             (let cells' = cells @ [\<lparr>cell_x = x, cell_y = y div 2, cell_char = char, cell_ansi = ansi\<rparr>];
                  cellCount' = cellCount + 1
              in if cellCount' \<ge> maxCells then Returned cells'
                 else scan_columns img y (x + 1) cells' cellCount')
           else scan_columns img y (x + 1) cells cellCount)
      else Continue (cells, cellCount))"
  by pat_completeness auto
termination
  by (relation "measure (\<lambda>(img, y, x, cells, cellCount). info_width img - x)") auto

declare scan_columns.simps [simp del]

text \<open>
  The outer loop \<open>for (let y = 0; y < height - 1; y += 2)\<close>, from row \<open>y\<close> on. Over the
  integers \<open>y < height - 1\<close> is \<open>y + 1 < height\<close>, which is how the test is written on
  natural numbers.
\<close>

function scan_rows :: "imageData \<Rightarrow> nat \<Rightarrow> cell list \<Rightarrow> nat \<Rightarrow> (cell list, cell list \<times> nat) flow" where
  "scan_rows img y cells cellCount =
     (if y + 1 < info_height img then
        (case scan_columns img y 0 cells cellCount of
           Returned r \<Rightarrow> Returned r
         | Continue (cells', cellCount') \<Rightarrow> scan_rows img (y + 2) cells' cellCount')
      else Continue (cells, cellCount))"
  by pat_completeness auto
termination
  by (relation "measure (\<lambda>(img, y, cells, cellCount). info_height img - y)") auto

declare scan_rows.simps [simp del]

definition imageToData :: "imageData \<Rightarrow> cell list" where
  "imageToData img =
     (case scan_rows img 0 [] 0 of Returned r \<Rightarrow> r | Continue (cells, cellCount) \<Rightarrow> cells)"

section \<open>run.js: ImageGallerySlider\<close>

text \<open>
  What \<open>generator.generate\<close> resolves to is either falsy (\<open>None\<close>), an array of cells, or
  the table form \<open>{t, d}\<close> with \<open>d\<close> a list of \<open>[x, y, char, index into t]\<close>. The call is
  external to the slider: its outcome is an argument of the model.
\<close>

datatype image_value =
    CellArray "cell list"
  | TableForm "string list" "(nat \<times> nat \<times> string \<times> nat) list"

datatype generate_outcome = Throws | Resolves "image_value option"

text \<open>
  The fields of the slider (\<open>terminalWidth\<close>, \<open>terminalHeight\<close>, \<open>scrollOffset\<close> and
  \<open>imageData\<close> carry the prefix \<open>slider_\<close>).
\<close>

record slider =
  imagePaths :: "string list"
  currentIndex :: int
  isNavigating :: bool
  slider_terminalWidth :: int
  slider_terminalHeight :: int
  slider_scrollOffset :: int
  slider_imageData :: "image_value option"
  imageHeight :: int

definition ImageGallerySlider_constructor ::
    "string list \<Rightarrow> int \<Rightarrow> int option \<Rightarrow> int option \<Rightarrow> slider" where
  "ImageGallerySlider_constructor paths startIndex stdout_columns stdout_rows =
     \<lparr>imagePaths = paths, currentIndex = startIndex, isNavigating = False,
      slider_terminalWidth = js_or stdout_columns 80, slider_terminalHeight = js_or stdout_rows 24,
      slider_scrollOffset = 0, slider_imageData = None, imageHeight = 0\<rparr>"

text \<open>The cells of either form, as \<open>calculateImageDimensions\<close> builds them.\<close>

definition image_cells :: "image_value \<Rightarrow> cell list" where
  "image_cells v =
     (case v of
        CellArray cells \<Rightarrow> cells
      | TableForm ansiTable d \<Rightarrow>
          map (\<lambda>(x, y, char, i).
                 \<lparr>cell_x = x, cell_y = y, cell_char = char,
                  cell_ansi = (if i < length ansiTable then ansiTable ! i else '''')\<rparr>) d)"

definition calculateImageDimensions :: "slider \<Rightarrow> slider" where
  "calculateImageDimensions this =
     (case slider_imageData this of
        None \<Rightarrow> this
      | Some v \<Rightarrow>
          this\<lparr>imageHeight := int (foldl (\<lambda>m c. max m (cell_y c)) 0 (image_cells v)) + 1\<rparr>)"

text \<open>
  \<open>displayWithNavigation\<close> writes to the terminal and registers the key handler again; it
  changes no field.
\<close>

definition displayWithNavigation :: "slider \<Rightarrow> slider" where
  "displayWithNavigation this = this"

definition showCurrentImage :: "generate_outcome \<Rightarrow> slider \<Rightarrow> js_error + slider" where
  "showCurrentImage outcome this =
     (if length (imagePaths this) = 0 then Inr this
      else case js_nth (imagePaths this) (currentIndex this) of
             None \<Rightarrow> Inl TypeError
           | Some currentPath \<Rightarrow>
               (case outcome of
                  Resolves d \<Rightarrow>
                    (let this1 = this\<lparr>slider_imageData := d\<rparr>;
                         this2 = calculateImageDimensions this1;
                         this3 = this2\<lparr>slider_scrollOffset := 0\<rparr>
                     in Inr (displayWithNavigation this3))
                | Throws \<Rightarrow> Inr this))"

text \<open>
  One run of \<open>handleKey\<close> (lines 150 to 192) on a key, with the outcome of the
  \<open>generate\<close> call it may await. \<open>q\<close> ends the process, the escape key closes the slider
  (leaving \<open>isNavigating\<close> set), an exception leaves the handler.
\<close>

datatype slider_result = ProcessExit | Closed slider | Running slider | Failed js_error

definition handleKey :: "string \<Rightarrow> generate_outcome \<Rightarrow> slider \<Rightarrow> slider_result" where
  "handleKey key outcome this0 =
     (if isNavigating this0 then Running this0
      else
        (let this = this0\<lparr>isNavigating := True\<rparr>
         in if key = ''q'' \<or> key = ''Q'' then ProcessExit
            else if key = [ESC] then Closed this
            else if key = ESC # ''[D'' then
              (if currentIndex this > 0 then
                 (case showCurrentImage outcome (this\<lparr>currentIndex := currentIndex this - 1\<rparr>) of
                    Inl err \<Rightarrow> Failed err
                  | Inr this1 \<Rightarrow> Running (this1\<lparr>isNavigating := False\<rparr>))
               else Running (this\<lparr>isNavigating := False\<rparr>))
            else if key = ESC # ''[C'' then
              (if currentIndex this < int (length (imagePaths this)) - 1 then
                 (case showCurrentImage outcome (this\<lparr>currentIndex := currentIndex this + 1\<rparr>) of
                    Inl err \<Rightarrow> Failed err
                  | Inr this1 \<Rightarrow> Running (this1\<lparr>isNavigating := False\<rparr>))
               else Running (this\<lparr>isNavigating := False\<rparr>))
            else if key = ESC # ''[A'' then
              (if slider_scrollOffset this > 0 then
                 Running ((displayWithNavigation
                    (this\<lparr>slider_scrollOffset := max 0 (slider_scrollOffset this - 1)\<rparr>))
                    \<lparr>isNavigating := False\<rparr>)
               else Running (this\<lparr>isNavigating := False\<rparr>))
            else if key = ESC # ''[B'' then
              (let availableHeight = slider_terminalHeight this - 6;
                   maxScrollOffset = max 0 (imageHeight this - availableHeight)
               in if slider_scrollOffset this < maxScrollOffset then
                    Running ((displayWithNavigation
                       (this\<lparr>slider_scrollOffset := min maxScrollOffset (slider_scrollOffset this + 1)\<rparr>))
                       \<lparr>isNavigating := False\<rparr>)
                  else Running (this\<lparr>isNavigating := False\<rparr>))
            else Running (this\<lparr>isNavigating := False\<rparr>)))"

section \<open>run.js: the state of TerminalGUI\<close>

datatype entry_type = Directory | File

text \<open>The objects pushed by \<open>getMediaFiles\<close>: name, path, type, size, extension.\<close>

record entry =
  name :: string
  path :: string
  type :: entry_type
  size :: nat
  extension :: string

datatype view_mode = ListView | GridView

text \<open>
  The actions that open something, recorded in the order in which the handlers perform
  them: \<open>navigateToDirectory\<close> on a path, and the creation of an \<open>ImageGallerySlider\<close>
  in \<open>openImageViewer\<close> with its list of image paths and its start index.
\<close>

datatype open_action = NavigateToDirectory string | OpenImageViewer "string list" nat

text \<open>
  The fields of \<open>TerminalGUI\<close> that its handlers read and write. The terminal output, the
  readline interface and the thumbnail cache are not part of the model. \<open>useTripleText\<close>
  is \<open>undefined\<close> (\<open>None\<close>) until \<open>calculateGridDimensions\<close> has run once. \<open>opened\<close> is
  the log of open actions.
\<close>

record gui =
  currentDirectory :: string
  files :: "entry list"
  selectedIndex :: int
  scrollOffset :: int
  viewMode :: view_mode
  terminalWidth :: int
  terminalHeight :: int
  maxDisplayLines :: int
  lastClickTime :: int
  lastClickTarget :: "string option"
  doubleClickThreshold :: int
  mouseEnabled :: bool
  hoverIndex :: int
  scrollMode :: bool
  disableMouse :: bool
  useTripleText :: "bool option"
  opened :: "open_action list"

section \<open>run.js: calculateGridDimensions\<close>

record grid_dimensions =
  columns :: int
  rows :: int
  gapWidth :: int
  totalWidth :: int
  totalHeight :: int
  itemWidth :: int
  itemHeight :: int

text \<open>
  \<open>calculateGridDimensions\<close> returns the dimensions and assigns \<open>this.useTripleText\<close>;
  the model returns the dimensions together with the updated state.
\<close>

definition calculateGridDimensions :: "gui \<Rightarrow> grid_dimensions \<times> gui" where
  "calculateGridDimensions this =
     (let gap = 2;
          availableWidth = terminalWidth this - 2;
          minImageWidth = 32;
          cols = js_floor_div availableWidth (minImageWidth + gap);
          actualColumns = max 1 cols;
          rws = js_ceil_div (int (length (files this))) actualColumns;
          totalW = (actualColumns * minImageWidth) + ((actualColumns - 1) * gap);
          tripleItemHeight = 19;
          normalItemHeight = 17;
          triple = ((minImageWidth * tripleItemHeight) \<ge> 500);
          this' = this\<lparr>useTripleText := Some triple\<rparr>;
          itemH = (if triple then tripleItemHeight else normalItemHeight);
          totalH = rws * itemH
      in (\<lparr>columns = actualColumns, rows = rws, gapWidth = gap, totalWidth = totalW,
           totalHeight = totalH, itemWidth = minImageWidth, itemHeight = itemH\<rparr>, this'))"

section \<open>run.js: the constructor and getMediaFiles\<close>

text \<open>
  The constructor, from the working directory, \<open>process.stdout.columns\<close> and
  \<open>process.stdout.rows\<close> (possibly \<open>undefined\<close>) and the command line.
\<close>

definition TerminalGUI_constructor :: "string \<Rightarrow> int option \<Rightarrow> int option \<Rightarrow> string list \<Rightarrow> gui" where
  "TerminalGUI_constructor cwd stdout_columns stdout_rows argv =
     (let w = max (js_or stdout_columns 80) 40;
          h = max (js_or stdout_rows 24) 15
      in \<lparr>currentDirectory = cwd, files = [], selectedIndex = 0, scrollOffset = 0,
          viewMode = GridView, terminalWidth = w, terminalHeight = h,
          maxDisplayLines = max 1 (h - 5), lastClickTime = 0, lastClickTarget = None,
          doubleClickThreshold = 500, mouseEnabled = False, hoverIndex = - 1,
          scrollMode = (''--scroll-arrows'' \<in> set argv \<or> ''--scroll-mode'' \<in> set argv),
          disableMouse = (''--no-mouse'' \<in> set argv),
          useTripleText = None, opened = []\<rparr>)"

definition SUPPORTED_EXTENSIONS :: "string list" where
  "SUPPORTED_EXTENSIONS =
     [''.jpg'', ''.jpeg'', ''.png'', ''.gif'', ''.bmp'', ''.webp'', ''.tiff'', ''.tga'', ''.svg'']"

definition isMediaFile :: "string \<Rightarrow> bool" where
  "isMediaFile filename = (let ext = toLowerCase (extname filename) in ext \<in> set SUPPORTED_EXTENSIONS)"

text \<open>
  The file system and the collation are outside the program: \<open>readdirSync\<close> and
  \<open>statSync\<close> return their result or throw (\<open>None\<close>), and \<open>localeCompare\<close> is the
  comparison of the running locale.
\<close>

record stats =
  isDirectory :: bool
  stat_size :: nat

record env =
  readdirSync :: "string \<Rightarrow> string list option"
  statSync :: "string \<Rightarrow> stats option"
  localeCompare :: "string \<Rightarrow> string \<Rightarrow> int"

text \<open>The comparison function handed to \<open>sort\<close> (lines 303 to 308).\<close>

definition compareItems :: "env \<Rightarrow> entry \<Rightarrow> entry \<Rightarrow> int" where
  "compareItems e a b =
     (if type a \<noteq> type b then (if type a = Directory then - 1 else 1)
      else localeCompare e (name a) (name b))"

text \<open>
  The loop \<open>for (const file of files)\<close> (lines 278 to 301) with the items pushed so far;
  \<open>None\<close> when \<open>statSync\<close> throws.
\<close>

fun collectItems :: "env \<Rightarrow> string \<Rightarrow> string list \<Rightarrow> entry list \<Rightarrow> entry list option" where
  "collectItems e dir [] items = Some items"
| "collectItems e dir (file # rest) items =
     (if file = ''.'' \<or> file = ''..'' then collectItems e dir rest items
      else
        (let fullPath = path_join dir file in
         case statSync e fullPath of
           None \<Rightarrow> None
         | Some st \<Rightarrow>
             if isDirectory st then
               collectItems e dir rest
                 (items @ [\<lparr>name = file, path = fullPath, type = Directory, size = 0, extension = ''''\<rparr>])
             else if isMediaFile file then
               collectItems e dir rest
                 (items @ [\<lparr>name = file, path = fullPath, type = File, size = stat_size st,
                            extension = toLowerCase (extname file)\<rparr>])
             else collectItems e dir rest items))"

text \<open>\<open>getMediaFiles\<close>: any exception is caught and gives the empty list.\<close>

definition getMediaFiles :: "env \<Rightarrow> gui \<Rightarrow> entry list" where
  "getMediaFiles e this =
     (case readdirSync e (currentDirectory this) of
        None \<Rightarrow> []
      | Some listing \<Rightarrow>
          (case collectItems e (currentDirectory this) listing [] of
             None \<Rightarrow> []
           | Some items \<Rightarrow> js_sort (compareItems e) items))"

section \<open>run.js: rendering\<close>

text \<open>
  Rendering writes to the terminal, which is not modelled, and decodes thumbnails through
  the external generator, which is taken to succeed. What it does to the state:
  \<open>drawGridView\<close> calls \<open>calculateGridDimensions\<close> and clamps \<open>scrollOffset\<close> (lines 567 to
  580); \<open>drawListView\<close> changes nothing; \<open>drawFooter\<close> calls \<open>calculateGridDimensions\<close> in
  grid view with scroll mode on (lines 778 and 779).
\<close>

definition drawGridView :: "gui \<Rightarrow> gui" where
  "drawGridView this =
     (case calculateGridDimensions this of (dims, this1) \<Rightarrow>
        let maxVisibleRows = js_floor_div (maxDisplayLines this1) (itemHeight dims);
            actualVisibleRows = min maxVisibleRows (rows dims);
            maxScrollRows = max 0 (rows dims - actualVisibleRows);
            maxScrollOffset = maxScrollRows * columns dims;
            this2 = (if scrollOffset this1 < 0 then this1\<lparr>scrollOffset := 0\<rparr> else this1);
            this3 = (if scrollOffset this2 > maxScrollOffset
                     then this2\<lparr>scrollOffset := maxScrollOffset\<rparr> else this2)
        in this3)"

definition drawFileList :: "gui \<Rightarrow> gui" where
  "drawFileList this = (if viewMode this = GridView then drawGridView this else this)"

definition drawFooter :: "gui \<Rightarrow> gui" where
  "drawFooter this =
     (if viewMode this = GridView \<and> scrollMode this \<and> length (files this) > 0
      then snd (calculateGridDimensions this) else this)"

definition render :: "gui \<Rightarrow> gui" where
  "render this = drawFooter (drawFileList this)"

definition renderWithClear :: "gui \<Rightarrow> gui" where
  "renderWithClear this = drawFooter (drawFileList this)"

text \<open>
  The indices of the entries that \<open>drawGridView\<close> draws (the loops of lines 588 to 596):
  \<open>row * columns + col + scrollOffset\<close> for the rows below \<open>actualVisibleRows\<close> and every
  column, where that index is below \<open>files.length\<close>.
\<close>

definition gridVisibleIndices :: "gui \<Rightarrow> int list" where
  "gridVisibleIndices this =
     (case calculateGridDimensions this of (dims, this1) \<Rightarrow>
        let maxVisibleRows = js_floor_div (maxDisplayLines this1) (itemHeight dims);
            actualVisibleRows = min maxVisibleRows (rows dims)
        in filter (\<lambda>index. index < int (length (files this1)))
             (concat (map (\<lambda>row. map (\<lambda>col. row * columns dims + col + scrollOffset this1)
                                     [0..columns dims - 1])
                          [0..actualVisibleRows - 1])))"

section \<open>run.js: scrolling\<close>

definition scrollGrid :: "int \<Rightarrow> gui \<Rightarrow> gui" where
  "scrollGrid direction this =
     (case calculateGridDimensions this of (dims, this1) \<Rightarrow>
        let maxVisibleRows = js_floor_div (maxDisplayLines this1) (itemHeight dims);
            actualVisibleRows = min maxVisibleRows (rows dims);
            maxScrollRows = max 0 (rows dims - actualVisibleRows);
            maxScrollOffset = maxScrollRows * columns dims;
            scrollAmount = columns dims;
            this2 = (if direction = - 1
                     then this1\<lparr>scrollOffset := max 0 (scrollOffset this1 - scrollAmount)\<rparr>
                     else this1\<lparr>scrollOffset := min maxScrollOffset (scrollOffset this1 + scrollAmount)\<rparr>);
            maxVisibleIndex = scrollOffset this2 + (maxDisplayLines this2 * columns dims) - 1;
            minVisibleIndex = scrollOffset this2;
            this3 = (if selectedIndex this2 < minVisibleIndex
                     then this2\<lparr>selectedIndex := minVisibleIndex\<rparr>
                     else if selectedIndex this2 > maxVisibleIndex
                     then this2\<lparr>selectedIndex := maxVisibleIndex\<rparr>
                     else this2)
        in renderWithClear this3)"

definition handleScrollWheel :: "int \<Rightarrow> gui \<Rightarrow> gui" where
  "handleScrollWheel direction this =
     (if viewMode this = GridView then
        (case calculateGridDimensions this of (dims, this1) \<Rightarrow>
           let maxVisibleRows = js_floor_div (maxDisplayLines this1) (itemHeight dims);
               actualVisibleRows = min maxVisibleRows (rows dims);
               maxScrollRows = max 0 (rows dims - actualVisibleRows);
               maxScrollOffset = maxScrollRows * columns dims;
               scrollAmount = columns dims;
               this2 = (if direction = - 1
                        then this1\<lparr>scrollOffset := max 0 (scrollOffset this1 - scrollAmount)\<rparr>
                        else this1\<lparr>scrollOffset := min maxScrollOffset (scrollOffset this1 + scrollAmount)\<rparr>);
               maxVisibleIndex = scrollOffset this2 + (maxDisplayLines this2 * columns dims) - 1;
               minVisibleIndex = scrollOffset this2;
               this3 = (if selectedIndex this2 < minVisibleIndex
                        then this2\<lparr>selectedIndex := minVisibleIndex\<rparr>
                        else if selectedIndex this2 > maxVisibleIndex
                        then this2\<lparr>selectedIndex := maxVisibleIndex\<rparr>
                        else this2)
           in renderWithClear this3)
      else
        (let this2 = (if direction = - 1
                      then this\<lparr>scrollOffset := max 0 (scrollOffset this - 1)\<rparr>
                      else (let maxScrollOffset = max 0 (int (length (files this)) - maxDisplayLines this)
                            in this\<lparr>scrollOffset := min maxScrollOffset (scrollOffset this + 1)\<rparr>));
             maxVisibleIndex = scrollOffset this2 + maxDisplayLines this2 - 1;
             minVisibleIndex = scrollOffset this2;
             this3 = (if selectedIndex this2 < minVisibleIndex
                      then this2\<lparr>selectedIndex := minVisibleIndex\<rparr>
                      else if selectedIndex this2 > maxVisibleIndex
                      then this2\<lparr>selectedIndex := maxVisibleIndex\<rparr>
                      else this2)
         in renderWithClear this3))"

section \<open>run.js: opening, refreshing, activation\<close>

definition navigateToDirectory :: "env \<Rightarrow> string \<Rightarrow> gui \<Rightarrow> gui" where
  "navigateToDirectory e dirPath this =
     (let this1 = this\<lparr>opened := opened this @ [NavigateToDirectory dirPath]\<rparr>;
          this2 = this1\<lparr>currentDirectory := dirPath\<rparr>;
          this3 = this2\<lparr>selectedIndex := 0\<rparr>;
          this4 = this3\<lparr>scrollOffset := 0\<rparr>;
          this5 = this4\<lparr>files := getMediaFiles e this4\<rparr>
      in render this5)"

text \<open>
  What \<open>setupInput\<close> does to the state (lines 969 to 980): it registers the key handler
  and, unless \<open>--no-mouse\<close> was given, turns mouse reporting on and sets \<open>mouseEnabled\<close>.
\<close>

definition setupInput :: "gui \<Rightarrow> gui" where
  "setupInput this = (if \<not> disableMouse this then this\<lparr>mouseEnabled := True\<rparr> else this)"

text \<open>
  \<open>openImageViewer\<close> creates the slider and waits for it to exit, then renders. The
  session of the slider is outside this model: the creation is recorded in \<open>opened\<close>, and
  when the slider exits its \<open>onExit\<close> callback runs \<open>setupInput\<close> (lines 932 to 936).
\<close>

definition openImageViewer :: "string \<Rightarrow> gui \<Rightarrow> gui" where
  "openImageViewer imagePath this =
     (let imageFiles = map path (filter (\<lambda>item. type item = File \<and> isMediaFile (name item)) (files this))
      in case indexOf imageFiles imagePath of
           None \<Rightarrow> this
         | Some startIndex \<Rightarrow>
             (let this1 = this\<lparr>opened := opened this @ [OpenImageViewer imageFiles startIndex]\<rparr>;
                  this2 = setupInput this1
              in render this2))"

definition viewSelectedFile :: "env \<Rightarrow> gui \<Rightarrow> js_error + gui" where
  "viewSelectedFile e this =
     (if length (files this) = 0 then Inr this
      else case js_nth (files this) (selectedIndex this) of
             None \<Rightarrow> Inl TypeError
           | Some selectedItem \<Rightarrow>
               if type selectedItem = Directory then Inr (navigateToDirectory e (path selectedItem) this)
               else if isMediaFile (name selectedItem) then Inr (openImageViewer (path selectedItem) this)
               else Inr this)"

definition refresh :: "env \<Rightarrow> gui \<Rightarrow> gui" where
  "refresh e this =
     (let this1 = this\<lparr>files := getMediaFiles e this\<rparr>;
          this2 = this1\<lparr>selectedIndex := min (selectedIndex this1) (int (length (files this1)) - 1)\<rparr>;
          this3 = this2\<lparr>scrollOffset :=
                    min (scrollOffset this2) (max 0 (int (length (files this2)) - maxDisplayLines this2))\<rparr>
      in render this3)"

text \<open>
  The two activation handlers, with the value of \<open>Date.now()\<close> they read as
  \<open>currentTime\<close>.
\<close>

definition handleLeftMouseClick :: "env \<Rightarrow> int \<Rightarrow> gui \<Rightarrow> js_error + gui" where
  "handleLeftMouseClick e currentTime this =
     (if length (files this) = 0 then Inr this
      else case js_nth (files this) (selectedIndex this) of
             None \<Rightarrow> Inl TypeError
           | Some selectedItem \<Rightarrow>
               if lastClickTarget this = Some (path selectedItem)
                  \<and> (currentTime - lastClickTime this) < doubleClickThreshold this
               then
                 (let this1 = this\<lparr>lastClickTime := 0\<rparr>;
                      this2 = this1\<lparr>lastClickTarget := None\<rparr>
                  in if type selectedItem = Directory
                     then Inr (navigateToDirectory e (path selectedItem) this2)
                     else viewSelectedFile e this2)
               else
                 (let this1 = this\<lparr>lastClickTime := currentTime\<rparr>;
                      this2 = this1\<lparr>lastClickTarget := Some (path selectedItem)\<rparr>
                  in Inr this2))"

definition handleEnterKey :: "env \<Rightarrow> int \<Rightarrow> gui \<Rightarrow> js_error + gui" where
  "handleEnterKey e currentTime this =
     (if length (files this) = 0 then Inr this
      else case js_nth (files this) (selectedIndex this) of
             None \<Rightarrow> Inl TypeError
           | Some selectedItem \<Rightarrow>
               if lastClickTarget this = Some (path selectedItem)
                  \<and> (currentTime - lastClickTime this) < doubleClickThreshold this
               then
                 (let this1 = this\<lparr>lastClickTime := 0\<rparr>;
                      this2 = this1\<lparr>lastClickTarget := None\<rparr>
                  in if type selectedItem = Directory
                     then Inr (navigateToDirectory e (path selectedItem) this2)
                     else viewSelectedFile e this2)
               else
                 (let this1 = this\<lparr>lastClickTime := currentTime\<rparr>;
                      this2 = this1\<lparr>lastClickTarget := Some (path selectedItem)\<rparr>
                  in Inr (render this2)))"

section \<open>run.js: handleMouseEvent\<close>

text \<open>
  The first part of \<open>handleMouseEvent\<close> (lines 1046 to 1069): the button and the two
  coordinates read from the report, each possibly \<open>NaN\<close>, or \<open>None\<close> where the handler
  returns without them.
\<close>

definition decodeMouse :: "string \<Rightarrow> (int option \<times> int option \<times> int option) option" where
  "decodeMouse d =
     (if startsWith d (ESC # ''[M'') then
        Some (js_minus (charCodeAt d 3) 32, js_minus (charCodeAt d 4) 32, js_minus (charCodeAt d 5) 32)
      else if startsWith d (ESC # ''['') \<and> includes_char d CHR ''M'' then
        (let parts = js_split CHR '';'' (slice_2_minus1 d)
         in if length parts \<ge> 3 then
              Some (js_minus (parseInt (parts ! 0)) 32, js_minus (parseInt (parts ! 1)) 32,
                    js_minus (parseInt (parts ! 2)) 32)
            else None)
      else
        (if length d \<ge> 6 then
           Some (js_minus (charCodeAt d 3) 32, js_minus (charCodeAt d 4) 32, js_minus (charCodeAt d 5) 32)
         else None))"

text \<open>
  The loop \<open>for (let c = 0; c < columns; c++)\<close> of lines 1099 to 1106: the column whose
  span holds \<open>x\<close>, or 0 when none does.
\<close>

function hitColumn :: "int \<Rightarrow> int \<Rightarrow> int \<Rightarrow> int option \<Rightarrow> int \<Rightarrow> int \<Rightarrow> int" where
  "hitColumn cols baseItemWidth gap x c currentX =
     (if c < cols then
        (let itemW = max (if c = 0 then 32 else 20) baseItemWidth
         in if js_ge_int x currentX \<and> js_lt_int x (currentX + itemW) then c
            else hitColumn cols baseItemWidth gap x (c + 1) (currentX + itemW + gap))
      else 0)"
  by pat_completeness auto
termination
  by (relation "measure (\<lambda>(cols, baseItemWidth, gap, x, c, currentX). nat (cols - c))") auto

declare hitColumn.simps [simp del]

text \<open>
  \<open>handleMouseEvent\<close>. An exception inside the \<open>try\<close> block is caught and followed by a
  render. The right-click branch calls \<open>viewSelectedFile\<close> without awaiting it.
\<close>

definition handleMouseEvent :: "env \<Rightarrow> int \<Rightarrow> string \<Rightarrow> gui \<Rightarrow> gui" where
  "handleMouseEvent e currentTime d this =
     (case decodeMouse d of
        None \<Rightarrow> this
      | Some (button, x, y) \<Rightarrow>
          if button = Some 64 \<or> button = Some 65 \<or> button = Some 96 \<or> button = Some 97 then
            (let isScrollUp = (button = Some 64 \<or> button = Some 96)
             in handleScrollWheel (if isScrollUp then - 1 else 1) this)
          else
            (let adjustedY = js_minus y 1;
                 headerHeight = 0
             in if (button = Some 0 \<or> button = Some 3) \<and> js_ge_int adjustedY headerHeight
                   \<and> js_lt_int adjustedY (headerHeight + maxDisplayLines this)
                then
                  (case adjustedY of
                     None \<Rightarrow> this
                   | Some ay \<Rightarrow>
                       let (listIndex, this1) =
                             (if viewMode this = GridView then
                                (case calculateGridDimensions this of (dims, this') \<Rightarrow>
                                   let availableWidth =
                                         terminalWidth this' - 2 - (gapWidth dims * (columns dims - 1));
                                       baseItemWidth = js_floor_div availableWidth (columns dims);
                                       itemH = 17;
                                       row = js_floor_div (ay - headerHeight) itemH;
                                       col = hitColumn (columns dims) baseItemWidth (gapWidth dims) x 0 1
                                   in ((row + scrollOffset this') * columns dims + col, this'))
                              else (ay - headerHeight + scrollOffset this, this))
                       in if listIndex \<ge> 0 \<and> listIndex < int (length (files this1)) then
                            (let wasSelected = (selectedIndex this1 = listIndex);
                                 this2 = this1\<lparr>selectedIndex := listIndex\<rparr>;
                                 this3 = (if \<not> wasSelected then render this2 else this2)
                             in if button = Some 0 then
                                  (case handleLeftMouseClick e currentTime this3 of
                                     Inr this4 \<Rightarrow> this4
                                   | Inl err \<Rightarrow> render this3)
                                else
                                  (case js_nth (files this3) (selectedIndex this3) of
                                     None \<Rightarrow> render this3
                                   | Some selectedItem \<Rightarrow>
                                       if type selectedItem = Directory
                                       then navigateToDirectory e (path selectedItem) this3
                                       else (case viewSelectedFile e this3 of
                                               Inr this4 \<Rightarrow> this4
                                             | Inl err \<Rightarrow> this3)))
                          else this1)
                else this))"

section \<open>The cell compositor\<close>

subsection \<open>The loops as one scan, cut at \<open>maxCells\<close>\<close>

text \<open>
  \<open>cells_at img y x\<close> is what one pass of the inner loop body appends: the cell of column
  \<open>x\<close> of the row pair starting at \<open>y\<close>, or nothing when the glyph is a space.
  \<open>all_cells\<close> is the scan of every row pair with no bound on the number of cells.
\<close>

definition cells_at :: "imageData \<Rightarrow> nat \<Rightarrow> nat \<Rightarrow> cell list" where
  "cells_at img y x =
     (case pixel_pair img y x of (char, ansi) \<Rightarrow>
        if char \<noteq> '' '' then [\<lparr>cell_x = x, cell_y = y div 2, cell_char = char, cell_ansi = ansi\<rparr>]
        else [])"

definition row_cells :: "imageData \<Rightarrow> nat \<Rightarrow> cell list" where
  "row_cells img y = concat (map (cells_at img y) [0..<info_width img])"

definition all_cells :: "imageData \<Rightarrow> cell list" where
  "all_cells img = concat (map (\<lambda>k. row_cells img (2 * k)) [0..<info_height img div 2])"

lemma scan_columns_eq:
  "length cells < maxCells \<Longrightarrow> cellCount = length cells \<Longrightarrow>
   scan_columns img y x cells cellCount =
     (let out = cells @ concat (map (cells_at img y) [x..<info_width img])
      in if maxCells \<le> length out then Returned (take maxCells out)
         else Continue (out, length out))"
proof (induction img y x cells cellCount rule: scan_columns.induct)
  case (1 img y x cells cellCount)
  show ?case
  proof (cases "x < info_width img")
    case False
    then show ?thesis
      using "1.prems" by (simp add: scan_columns.simps [of img y x])
  next
    case True
    then have upt: "[x..<info_width img] = x # [x + 1..<info_width img]"
      by (simp add: upt_conv_Cons)
    obtain char ansi where pp: "pixel_pair img y x = (char, ansi)"
      by (cases "pixel_pair img y x")
    show ?thesis
    proof (cases "char = '' ''")
      case True
      then have "cells_at img y x = []"
        by (simp add: cells_at_def pp)
      moreover have "scan_columns img y x cells cellCount = scan_columns img y (x + 1) cells cellCount"
        using \<open>x < info_width img\<close> True by (simp add: scan_columns.simps [of img y x] pp)
      ultimately show ?thesis
        using "1.IH"(2) [OF \<open>x < info_width img\<close> pp [symmetric] _ "1.prems"] True upt
        by simp
    next
      case False
      define c where "c = \<lparr>cell_x = x, cell_y = y div 2, cell_char = char, cell_ansi = ansi\<rparr>"
      have at: "cells_at img y x = [c]"
        using False by (simp add: cells_at_def pp c_def)
      show ?thesis
      proof (cases "cellCount + 1 \<ge> maxCells")
        case True
        then have "scan_columns img y x cells cellCount = Returned (cells @ [c])"
          using \<open>x < info_width img\<close> False
          by (simp add: scan_columns.simps [of img y x] pp c_def Let_def)
        moreover have "maxCells - length cells = 1"
          using True "1.prems" by simp
        ultimately show ?thesis
          using upt at "1.prems" by (simp add: Let_def)
      next
        case nfull: False
        then have step: "scan_columns img y x cells cellCount
            = scan_columns img y (x + 1) (cells @ [c]) (cellCount + 1)"
          using \<open>x < info_width img\<close> False
          by (simp add: scan_columns.simps [of img y x] pp c_def Let_def)
        have "scan_columns img y (x + 1) (cells @ [c]) (cellCount + 1) =
           (let out = (cells @ [c]) @ concat (map (cells_at img y) [x + 1..<info_width img])
            in if maxCells \<le> length out then Returned (take maxCells out)
               else Continue (out, length out))"
          using "1.IH"(1) [OF \<open>x < info_width img\<close> pp [symmetric] False, of "cells @ [c]" "cellCount + 1"]
            nfull "1.prems"
          by (simp add: c_def)
        then show ?thesis
          using step upt at by (simp add: Let_def)
      qed
    qed
  qed
qed

lemma scan_rows_eq:
  "length cells < maxCells \<Longrightarrow> cellCount = length cells \<Longrightarrow> y = 2 * k \<Longrightarrow>
   scan_rows img y cells cellCount =
     (let out = cells @ concat (map (\<lambda>j. row_cells img (2 * j)) [k..<info_height img div 2])
      in if maxCells \<le> length out then Returned (take maxCells out)
         else Continue (out, length out))"
proof (induction img y cells cellCount arbitrary: k rule: scan_rows.induct)
  case (1 img y cells cellCount)
  show ?case
  proof (cases "y + 1 < info_height img")
    case False
    then have "\<not> k < info_height img div 2"
      using "1.prems"(3) by linarith
    moreover have "scan_rows img y cells cellCount = Continue (cells, cellCount)"
      using False by (simp add: scan_rows.simps [of img y])
    ultimately show ?thesis
      using "1.prems"(1,2) by (simp add: Let_def)
  next
    case True
    then have k: "k < info_height img div 2"
      using "1.prems"(3) by linarith
    then have upt: "[k..<info_height img div 2] = k # [k + 1..<info_height img div 2]"
      by (simp add: upt_conv_Cons)
    define row where "row = cells @ row_cells img y"
    have cols: "scan_columns img y 0 cells cellCount =
        (if maxCells \<le> length row then Returned (take maxCells row)
         else Continue (row, length row))"
      using scan_columns_eq [OF "1.prems"(1,2), of img y 0]
      by (simp add: row_def row_cells_def Let_def)
    show ?thesis
    proof (cases "maxCells \<le> length row")
      case full: True
      then have "scan_rows img y cells cellCount = Returned (take maxCells row)"
        using True cols by (simp add: scan_rows.simps [of img y])
      then show ?thesis
        using full upt "1.prems"(3) by (simp add: Let_def row_def)
    next
      case nfull: False
      then have c: "scan_columns img y 0 cells cellCount = Continue (row, length row)"
        using cols by simp
      have "scan_rows img y cells cellCount = scan_rows img (y + 2) row (length row)"
        using True c by (simp add: scan_rows.simps [of img y])
      moreover have "scan_rows img (y + 2) row (length row) =
         (let out = row @ concat (map (\<lambda>j. row_cells img (2 * j)) [k + 1..<info_height img div 2])
          in if maxCells \<le> length out then Returned (take maxCells out)
             else Continue (out, length out))"
        using "1.IH" [OF True c refl, of "k + 1"] nfull "1.prems"(3) by simp
      ultimately show ?thesis
        using upt "1.prems"(3) by (simp add: Let_def row_def)
    qed
  qed
qed

lemma imageToData_eq: "imageToData img = take maxCells (all_cells img)"
  using scan_rows_eq [of "[]" 0 0 0 img]
  by (simp add: imageToData_def all_cells_def maxCells_def Let_def)

subsection \<open>Pixels of a well-formed buffer\<close>

text \<open>
  A pixel buffer has 3 or 4 channels and \<open>W * H * C\<close> bytes; channel \<open>c\<close> of pixel
  \<open>(x, y)\<close> is the byte at index \<open>(y * W + x) * C + c\<close>. The alpha of a pixel is 255 when
  \<open>C = 3\<close> and its fourth channel otherwise, and the pixel is opaque when its alpha is
  at least 128. \<open>foreground\<close> and \<open>background\<close> are the SGR sequences that set the
  foreground and the background colour to the RGB of a pixel.
\<close>

definition well_formed :: "imageData \<Rightarrow> bool" where
  "well_formed img \<longleftrightarrow>
     (info_channels img = 3 \<or> info_channels img = 4) \<and>
     length (data img) = info_width img * info_height img * info_channels img"

definition channel :: "imageData \<Rightarrow> nat \<Rightarrow> nat \<Rightarrow> nat \<Rightarrow> nat" where
  "channel img x y c = unat (data img ! ((y * info_width img + x) * info_channels img + c))"

definition alpha :: "imageData \<Rightarrow> nat \<Rightarrow> nat \<Rightarrow> nat" where
  "alpha img x y = (if info_channels img = 3 then 255 else channel img x y 3)"

definition opaque :: "imageData \<Rightarrow> nat \<Rightarrow> nat \<Rightarrow> bool" where
  "opaque img x y \<longleftrightarrow> alpha img x y \<ge> 128"

definition foreground :: "imageData \<Rightarrow> nat \<Rightarrow> nat \<Rightarrow> string" where
  "foreground img x y =
     [ESC] @ ''[38;2;'' @ decimal (channel img x y 0) @ '';'' @ decimal (channel img x y 1)
       @ '';'' @ decimal (channel img x y 2) @ ''m''"

definition background :: "imageData \<Rightarrow> nat \<Rightarrow> nat \<Rightarrow> string" where
  "background img x y =
     [ESC] @ ''[48;2;'' @ decimal (channel img x y 0) @ '';'' @ decimal (channel img x y 1)
       @ '';'' @ decimal (channel img x y 2) @ ''m''"

text \<open>The cell of column \<open>x\<close> and row pair \<open>k\<close>, by the four cases of the alpha test.\<close>

definition expected_cells :: "imageData \<Rightarrow> nat \<Rightarrow> nat \<Rightarrow> cell list" where
  "expected_cells img x k =
     (if opaque img x (2 * k) \<and> opaque img x (2 * k + 1) then
        [\<lparr>cell_x = x, cell_y = k, cell_char = UPPER_HALF_BLOCK,
          cell_ansi = foreground img x (2 * k) @ background img x (2 * k + 1)\<rparr>]
      else if opaque img x (2 * k) then
        [\<lparr>cell_x = x, cell_y = k, cell_char = UPPER_HALF_BLOCK, cell_ansi = foreground img x (2 * k)\<rparr>]
      else if opaque img x (2 * k + 1) then
        [\<lparr>cell_x = x, cell_y = k, cell_char = LOWER_HALF_BLOCK, cell_ansi = foreground img x (2 * k + 1)\<rparr>]
      else [])"

lemma index_in_range:
  assumes "x < w" "y < h" "c < ch"
  shows "(y * w + x) * ch + c < w * h * (ch::nat)"
proof -
  have "y * w + x + 1 \<le> (y + 1) * w"
    using assms(1) by simp
  also have "\<dots> \<le> h * w"
    using assms(2) by (intro mult_le_mono1) simp
  finally have "(y * w + x + 1) * ch \<le> h * w * ch"
    by (rule mult_le_mono1)
  moreover have "(y * w + x) * ch + c < (y * w + x + 1) * ch"
    using assms(3) by simp
  ultimately show ?thesis
    by (simp add: mult.commute)
qed

lemma js_index_channel:
  assumes "well_formed img" "x < info_width img" "y < info_height img" "c < info_channels img"
  shows "js_index (data img) ((y * info_width img + x) * info_channels img + c) = Some (channel img x y c)"
  using assms index_in_range [of x "info_width img" y "info_height img" c "info_channels img"]
  by (simp add: js_index_def channel_def well_formed_def)

lemma js_ge_alpha:
  assumes "well_formed img" "x < info_width img" "y < info_height img"
  shows "js_ge (if info_channels img = 4
                then js_index (data img) ((y * info_width img + x) * info_channels img + 3)
                else Some 255) 128 \<longleftrightarrow> opaque img x y"
proof (cases "info_channels img = 4")
  case True
  then show ?thesis
    using js_index_channel [OF assms, of 3]
    by (simp add: js_ge_def opaque_def alpha_def)
next
  case False
  then have "info_channels img = 3"
    using assms(1) by (auto simp: well_formed_def)
  then show ?thesis
    by (simp add: js_ge_def opaque_def alpha_def)
qed

lemma glyphs_not_space:
  "UPPER_HALF_BLOCK \<noteq> '' ''" "LOWER_HALF_BLOCK \<noteq> '' ''"
  by (simp_all add: UPPER_HALF_BLOCK_def LOWER_HALF_BLOCK_def)

lemma cells_at_expected:
  assumes wf: "well_formed img" and x: "x < info_width img" and k: "2 * k + 1 < info_height img"
  shows "cells_at img (2 * k) x = expected_cells img x k"
proof -
  have ch: "0 < info_channels img" "1 < info_channels img" "2 < info_channels img"
    using wf by (auto simp: well_formed_def)
  have up: "2 * k < info_height img"
    using k by simp
  note idx = js_index_channel [OF wf x up] js_index_channel [OF wf x k]
  have a_up: "js_ge (if info_channels img = 4
                then js_index (data img) ((2 * k * info_width img + x) * info_channels img + 3)
                else Some 255) 128 \<longleftrightarrow> opaque img x (2 * k)"
    by (rule js_ge_alpha [OF wf x up])
  have a_low: "js_ge (if info_channels img = 4
                then js_index (data img) (((2 * k + 1) * info_width img + x) * info_channels img + 3)
                else Some 255) 128 \<longleftrightarrow> opaque img x (2 * k + 1)"
    by (rule js_ge_alpha [OF wf x k])
  have i0: "js_index (data img) ((2 * k * info_width img + x) * info_channels img)
      = Some (channel img x (2 * k) 0)"
    using idx(1) [OF ch(1)] by simp
  have j0: "js_index (data img) (((2 * k + 1) * info_width img + x) * info_channels img)
      = Some (channel img x (2 * k + 1) 0)"
    using idx(2) [OF ch(1)] by simp
  show ?thesis
    unfolding cells_at_def pixel_pair_def Let_def
    using a_up a_low i0 j0 idx(1) [OF ch(2)] idx(1) [OF ch(3)] idx(2) [OF ch(2)] idx(2) [OF ch(3)]
    by (simp add: expected_cells_def foreground_def background_def js_template_def glyphs_not_space
        del: mult_Suc)
qed

subsection \<open>Positions in scan order\<close>

text \<open>
  A position \<open>(x, k)\<close> yields a cell when one of its two pixels is opaque.
  \<open>positions_before img x k\<close> lists the positions the loops visit before \<open>(x, k)\<close>: the
  row pairs \<open>0 .. k - 1\<close> in full and the columns \<open>0 .. x - 1\<close> of row pair \<open>k\<close>;
  \<open>emitted_before\<close> counts those that yield a cell. \<open>cells_on x k cells\<close> are the cells
  of a list that sit at \<open>(x, k)\<close>.
\<close>

definition has_cell :: "imageData \<Rightarrow> nat \<times> nat \<Rightarrow> bool" where
  "has_cell img p = (case p of (x, k) \<Rightarrow> opaque img x (2 * k) \<or> opaque img x (2 * k + 1))"

definition positions_before :: "imageData \<Rightarrow> nat \<Rightarrow> nat \<Rightarrow> (nat \<times> nat) list" where
  "positions_before img x k =
     concat (map (\<lambda>j. map (\<lambda>i. (i, j)) [0..<info_width img]) [0..<k]) @ map (\<lambda>i. (i, k)) [0..<x]"

definition emitted_before :: "imageData \<Rightarrow> nat \<Rightarrow> nat \<Rightarrow> nat" where
  "emitted_before img x k = length (filter (has_cell img) (positions_before img x k))"

definition cells_on :: "nat \<Rightarrow> nat \<Rightarrow> cell list \<Rightarrow> cell list" where
  "cells_on x k cells = filter (\<lambda>c. cell_x c = x \<and> cell_y c = k) cells"

definition all_opaque :: "imageData \<Rightarrow> bool" where
  "all_opaque img \<longleftrightarrow> (\<forall>x < info_width img. \<forall>y < info_height img. opaque img x y)"

lemma cells_at_coords:
  "c \<in> set (cells_at img y x) \<Longrightarrow> cell_x c = x \<and> cell_y c = y div 2"
  by (auto simp: cells_at_def split: prod.splits if_splits)

lemma length_expected_cells:
  "length (expected_cells img x k) = (if has_cell img (x, k) then 1 else 0)"
  by (simp add: expected_cells_def has_cell_def)

lemma length_concat_filter:
  assumes "\<And>i. i \<in> set xs \<Longrightarrow> length (f i) = (if P i then 1 else 0)"
  shows "length (concat (map f xs)) = length (filter P xs)"
  using assms by (induction xs) auto

lemma length_cells_before_row:
  assumes wf: "well_formed img" and k: "2 * k + 1 < info_height img" and x: "x \<le> info_width img"
  shows "length (concat (map (cells_at img (2 * k)) [0..<x]))
       = length (filter (has_cell img) (map (\<lambda>i. (i, k)) [0..<x]))"
proof -
  have "length (concat (map (cells_at img (2 * k)) [0..<x]))
      = length (filter (\<lambda>i. has_cell img (i, k)) [0..<x])"
  proof (rule length_concat_filter)
    fix i assume "i \<in> set [0..<x]"
    then have "i < info_width img"
      using x by simp
    then show "length (cells_at img (2 * k) i) = (if has_cell img (i, k) then 1 else 0)"
      by (simp add: cells_at_expected [OF wf _ k] length_expected_cells)
  qed
  then show ?thesis
    by (simp add: filter_map comp_def)
qed

lemma length_rows_before:
  assumes wf: "well_formed img" and k: "2 * k < info_height img + 1"
  shows "length (concat (map (\<lambda>j. row_cells img (2 * j)) [0..<k]))
       = length (filter (has_cell img)
           (concat (map (\<lambda>j. map (\<lambda>i. (i, j)) [0..<info_width img]) [0..<k])))"
  using k
proof (induction k)
  case 0
  then show ?case by simp
next
  case (Suc k)
  then have row: "2 * k + 1 < info_height img"
    by simp
  have "length (row_cells img (2 * k))
      = length (filter (has_cell img) (map (\<lambda>i. (i, k)) [0..<info_width img]))"
    unfolding row_cells_def by (rule length_cells_before_row [OF wf row]) simp
  then show ?case
    using Suc by simp
qed

lemma upt_split_at: "i < n \<Longrightarrow> [0..<n] = [0..<i] @ i # [i + 1..<n]"
  using upt_add_eq_append [of 0 i "n - i"] by (simp add: upt_conv_Cons)

lemma all_cells_split:
  assumes x: "x < info_width img" and k: "2 * k + 1 < info_height img"
  shows "all_cells img =
     (concat (map (\<lambda>j. row_cells img (2 * j)) [0..<k]) @ concat (map (cells_at img (2 * k)) [0..<x]))
     @ cells_at img (2 * k) x
     @ (concat (map (cells_at img (2 * k)) [x + 1..<info_width img])
        @ concat (map (\<lambda>j. row_cells img (2 * j)) [k + 1..<info_height img div 2]))"
proof -
  have kk: "k < info_height img div 2"
    using k by linarith
  have "[0..<info_height img div 2] = [0..<k] @ k # [k + 1..<info_height img div 2]"
    by (rule upt_split_at [OF kk])
  moreover have "[0..<info_width img] = [0..<x] @ x # [x + 1..<info_width img]"
    by (rule upt_split_at [OF x])
  ultimately show ?thesis
    by (simp add: all_cells_def row_cells_def)
qed

lemma cells_on_before:
  "cells_on x k (concat (map (\<lambda>j. row_cells img (2 * j)) [0..<k])
      @ concat (map (cells_at img (2 * k)) [0..<x])) = []"
  by (auto simp: cells_on_def row_cells_def filter_empty_conv dest!: cells_at_coords)

lemma cells_on_after:
  "cells_on x k (concat (map (cells_at img (2 * k)) [x + 1..<w])
      @ concat (map (\<lambda>j. row_cells img (2 * j)) [k + 1..<h])) = []"
  by (auto simp: cells_on_def row_cells_def filter_empty_conv dest!: cells_at_coords)

lemma cells_on_take_empty: "cells_on x k cells = [] \<Longrightarrow> cells_on x k (take n cells) = []"
  by (auto simp: cells_on_def filter_empty_conv dest: in_set_takeD)

lemma cells_on_expected: "cells_on x k (expected_cells img x k) = expected_cells img x k"
  by (simp add: cells_on_def expected_cells_def)

lemma cells_on_append: "cells_on x k (xs @ ys) = cells_on x k xs @ cells_on x k ys"
  by (simp add: cells_on_def)

lemma all_cells_decomp:
  assumes wf: "well_formed img" and x: "x < info_width img" and k: "2 * k + 1 < info_height img"
  obtains B A where "all_cells img = B @ expected_cells img x k @ A"
    and "cells_on x k B = []" and "cells_on x k A = []" and "length B = emitted_before img x k"
proof -
  define B where "B = concat (map (\<lambda>j. row_cells img (2 * j)) [0..<k])
      @ concat (map (cells_at img (2 * k)) [0..<x])"
  define A where "A = concat (map (cells_at img (2 * k)) [x + 1..<info_width img])
        @ concat (map (\<lambda>j. row_cells img (2 * j)) [k + 1..<info_height img div 2])"
  have "all_cells img = B @ expected_cells img x k @ A"
    unfolding B_def A_def using all_cells_split [OF x k] cells_at_expected [OF wf x k] by simp
  moreover have "cells_on x k B = []"
    unfolding B_def by (rule cells_on_before)
  moreover have "cells_on x k A = []"
    unfolding A_def by (rule cells_on_after)
  moreover have "length B = emitted_before img x k"
    using length_rows_before [OF wf, of k] length_cells_before_row [OF wf k, of x] x k
    by (simp add: B_def emitted_before_def positions_before_def)
  ultimately show thesis
    by (rule that)
qed

lemma cells_on_imageToData:
  assumes wf: "well_formed img" and x: "x < info_width img" and k: "2 * k + 1 < info_height img"
    and cap: "emitted_before img x k < maxCells"
  shows "cells_on x k (imageToData img) = expected_cells img x k"
proof -
  obtain B A where split: "all_cells img = B @ expected_cells img x k @ A"
    and B: "cells_on x k B = []" and A: "cells_on x k A = []"
    and lenB: "length B = emitted_before img x k"
    by (rule all_cells_decomp [OF wf x k])
  define M where "M = expected_cells img x k"
  have lenM: "length M \<le> 1"
    by (simp add: M_def length_expected_cells)
  have "take maxCells (B @ M @ A) = B @ M @ take (maxCells - length B - length M) A"
    using lenB cap lenM by simp
  then have "imageToData img = B @ M @ take (maxCells - length B - length M) A"
    by (simp only: imageToData_eq split M_def)
  moreover have "cells_on x k (take (maxCells - length B - length M) A) = []"
    by (rule cells_on_take_empty [OF A])
  ultimately show ?thesis
    using B by (simp add: cells_on_append M_def cells_on_expected)
qed

lemma cells_on_imageToData_none:
  assumes wf: "well_formed img" and x: "x < info_width img" and k: "2 * k + 1 < info_height img"
    and none: "\<not> opaque img x (2 * k)" "\<not> opaque img x (2 * k + 1)"
  shows "cells_on x k (imageToData img) = []"
proof -
  obtain B A where split: "all_cells img = B @ expected_cells img x k @ A"
    and B: "cells_on x k B = []" and A: "cells_on x k A = []"
    by (rule all_cells_decomp [OF wf x k])
  have "expected_cells img x k = []"
    using none by (simp add: expected_cells_def)
  then have "cells_on x k (all_cells img) = []"
    using split B A by (simp add: cells_on_append)
  then show ?thesis
    by (simp add: imageToData_eq cells_on_take_empty)
qed

subsection \<open>The four cases at one position\<close>

text \<open>
  C1, as amended. For every well-formed pixel buffer (width W, height H, 3 or 4 channels),
  every column x < W and every row pair (2k, 2k+1) with 2k+1 <= H-1: provided fewer than
  100000 cells are emitted for the positions scanned before (x, k), the output holds
  exactly one cell at (x, k) when a pixel of the pair is opaque: the upper half block with
  foreground = upper RGB and background = lower RGB when both are opaque, the upper half
  block with foreground = upper RGB and no background when only the upper one is, the
  lower half block with foreground = lower RGB and no background when only the lower one
  is. When neither is opaque the output holds no cell at (x, k), whatever was emitted
  before.
\<close>

theorem imageToData_cell_cases:
  assumes "well_formed img" and "x < info_width img" and "2 * k + 1 < info_height img"
  shows "(emitted_before img x k < maxCells \<longrightarrow>
           (opaque img x (2 * k) \<and> opaque img x (2 * k + 1) \<longrightarrow>
              cells_on x k (imageToData img) =
                [\<lparr>cell_x = x, cell_y = k, cell_char = UPPER_HALF_BLOCK,
                  cell_ansi = foreground img x (2 * k) @ background img x (2 * k + 1)\<rparr>])
         \<and> (opaque img x (2 * k) \<and> \<not> opaque img x (2 * k + 1) \<longrightarrow>
              cells_on x k (imageToData img) =
                [\<lparr>cell_x = x, cell_y = k, cell_char = UPPER_HALF_BLOCK,
                  cell_ansi = foreground img x (2 * k)\<rparr>])
         \<and> (\<not> opaque img x (2 * k) \<and> opaque img x (2 * k + 1) \<longrightarrow>
              cells_on x k (imageToData img) =
                [\<lparr>cell_x = x, cell_y = k, cell_char = LOWER_HALF_BLOCK,
                  cell_ansi = foreground img x (2 * k + 1)\<rparr>]))
       \<and> (\<not> opaque img x (2 * k) \<and> \<not> opaque img x (2 * k + 1) \<longrightarrow>
            cells_on x k (imageToData img) = [])"
  using cells_on_imageToData [OF assms] cells_on_imageToData_none [OF assms]
  by (simp add: expected_cells_def)

subsection \<open>Buffers with every pixel opaque\<close>

lemma all_opaque_expected:
  assumes "all_opaque img" "x < info_width img" "2 * k + 1 < info_height img"
  shows "expected_cells img x k =
     [\<lparr>cell_x = x, cell_y = k, cell_char = UPPER_HALF_BLOCK,
       cell_ansi = foreground img x (2 * k) @ background img x (2 * k + 1)\<rparr>]"
  using assms by (simp add: expected_cells_def all_opaque_def)

lemma all_opaque_row:
  assumes wf: "well_formed img" and op: "all_opaque img" and k: "2 * k + 1 < info_height img"
  shows "row_cells img (2 * k) =
     map (\<lambda>x. \<lparr>cell_x = x, cell_y = k, cell_char = UPPER_HALF_BLOCK,
       cell_ansi = foreground img x (2 * k) @ background img x (2 * k + 1)\<rparr>) [0..<info_width img]"
proof -
  have "map (cells_at img (2 * k)) [0..<info_width img] =
     map (\<lambda>x. [\<lparr>cell_x = x, cell_y = k, cell_char = UPPER_HALF_BLOCK,
       cell_ansi = foreground img x (2 * k) @ background img x (2 * k + 1)\<rparr>]) [0..<info_width img]"
  proof (rule map_cong)
    fix x assume "x \<in> set [0..<info_width img]"
    then have x: "x < info_width img"
      by simp
    show "cells_at img (2 * k) x = [\<lparr>cell_x = x, cell_y = k, cell_char = UPPER_HALF_BLOCK,
       cell_ansi = foreground img x (2 * k) @ background img x (2 * k + 1)\<rparr>]"
      by (simp only: cells_at_expected [OF wf x k] all_opaque_expected [OF op x k])
  qed simp
  then have "row_cells img (2 * k) = concat (map (\<lambda>x. [\<lparr>cell_x = x, cell_y = k,
       cell_char = UPPER_HALF_BLOCK,
       cell_ansi = foreground img x (2 * k) @ background img x (2 * k + 1)\<rparr>]) [0..<info_width img])"
    by (simp only: row_cells_def)
  then show ?thesis
    by (simp only: concat_map_singleton)
qed

lemma all_opaque_length:
  assumes wf: "well_formed img" and op: "all_opaque img"
  shows "length (all_cells img) = info_width img * (info_height img div 2)"
proof -
  have "map (\<lambda>k. length (row_cells img (2 * k))) [0..<info_height img div 2]
      = map (\<lambda>k. info_width img) [0..<info_height img div 2]"
  proof (rule map_cong)
    fix k assume "k \<in> set [0..<info_height img div 2]"
    then have "k < info_height img div 2"
      by simp
    then have "2 * k + 1 < info_height img"
      by linarith
    then show "length (row_cells img (2 * k)) = info_width img"
      by (simp add: all_opaque_row [OF wf op])
  qed simp
  moreover have "length (all_cells img)
      = sum_list (map (\<lambda>k. length (row_cells img (2 * k))) [0..<info_height img div 2])"
    by (simp add: all_cells_def length_concat comp_def)
  ultimately have "length (all_cells img)
      = sum_list (map (\<lambda>k. info_width img) [0..<info_height img div 2])"
    by (simp only:)
  then show ?thesis
    by (simp add: sum_list_triv)
qed

lemma all_opaque_glyph:
  assumes wf: "well_formed img" and op: "all_opaque img" and c: "c \<in> set (all_cells img)"
  shows "cell_char c = UPPER_HALF_BLOCK"
proof -
  from c obtain k where k: "k < info_height img div 2" and "c \<in> set (row_cells img (2 * k))"
    by (auto simp: all_cells_def)
  moreover from k have "2 * k + 1 < info_height img"
    by linarith
  ultimately show ?thesis
    by (auto simp: all_opaque_row [OF wf op])
qed

text \<open>
  C2, as amended. For every well-formed pixel buffer all of whose pixels are opaque,
  imageToData emits exactly min(100000, W * floor(H/2)) cells, each with the upper half
  block as its glyph.
\<close>

theorem imageToData_all_opaque:
  assumes "well_formed img" and "all_opaque img"
  shows "length (imageToData img) = min maxCells (info_width img * (info_height img div 2))
       \<and> (\<forall>c \<in> set (imageToData img). cell_char c = UPPER_HALF_BLOCK)"
  using all_opaque_length [OF assms] all_opaque_glyph [OF assms]
  by (auto simp: imageToData_eq dest: in_set_takeD)

subsection \<open>Concrete buffers\<close>

text \<open>
  \<open>sample_image\<close> is 2 by 2 with four channels: red and blue opaque in column 0, a
  transparent pixel over an opaque one in column 1. \<open>opaque_image\<close> is 2 by 2 with three
  channels. \<open>wide_image\<close> is one row pair of 100001 columns and \<open>tall_image\<close> has 101
  row pairs of 1000 columns, both with three channels, so every pixel is opaque and the
  scan meets the bound of 100000 cells.
\<close>

definition sample_image :: imageData where
  "sample_image = \<lparr>data = [255, 0, 0, 255,  0, 255, 0, 0,  0, 0, 255, 255,  9, 8, 7, 200],
     info_height = 2, info_width = 2, info_channels = 4\<rparr>"

definition opaque_image :: imageData where
  "opaque_image = \<lparr>data = [255, 0, 0,  0, 255, 0,  0, 0, 255,  9, 8, 7],
     info_height = 2, info_width = 2, info_channels = 3\<rparr>"

definition wide_image :: imageData where
  "wide_image = \<lparr>data = replicate (100001 * 2 * 3) 0,
     info_height = 2, info_width = 100001, info_channels = 3\<rparr>"

definition tall_image :: imageData where
  "tall_image = \<lparr>data = replicate (1000 * 202 * 3) 0,
     info_height = 202, info_width = 1000, info_channels = 3\<rparr>"

lemma length_imageToData_le: "length (imageToData img) \<le> maxCells"
  by (simp add: imageToData_eq)

lemma rgb_all_opaque: "info_channels img = 3 \<Longrightarrow> all_opaque img"
  by (simp add: all_opaque_def opaque_def alpha_def)

lemma capped_single_row:
  assumes wf: "well_formed img" and op: "all_opaque img" and h: "info_height img = 2"
    and x: "maxCells \<le> x"
  shows "cells_on x 0 (imageToData img) = []"
proof -
  have "all_cells img = row_cells img (2 * 0)"
    by (simp add: all_cells_def h)
  also have "\<dots> = map (\<lambda>x. \<lparr>cell_x = x, cell_y = 0, cell_char = UPPER_HALF_BLOCK,
       cell_ansi = foreground img x (2 * 0) @ background img x (2 * 0 + 1)\<rparr>) [0..<info_width img]"
    by (rule all_opaque_row [OF wf op]) (simp add: h)
  finally have cells: "all_cells img = map (\<lambda>x. \<lparr>cell_x = x, cell_y = 0, cell_char = UPPER_HALF_BLOCK,
       cell_ansi = foreground img x (2 * 0) @ background img x (2 * 0 + 1)\<rparr>) [0..<info_width img]" .
  have "\<forall>c \<in> set (imageToData img). cell_x c < maxCells"
  proof -
    have "imageToData img = map (\<lambda>x. \<lparr>cell_x = x, cell_y = 0, cell_char = UPPER_HALF_BLOCK,
       cell_ansi = foreground img x (2 * 0) @ background img x (2 * 0 + 1)\<rparr>)
         (take maxCells [0..<info_width img])"
      by (simp only: imageToData_eq take_map cells)
    moreover have "\<forall>i \<in> set (take maxCells [0..<info_width img]). i < maxCells"
      by (cases "maxCells \<le> info_width img") (simp_all add: take_upt)
    ultimately show ?thesis
      by auto
  qed
  then show ?thesis
    using x by (auto simp: cells_on_def filter_empty_conv)
qed

text \<open>
  C1 as stated fails where the bound cuts the scan: in \<open>wide_image\<close> both pixels of
  column 100000 are opaque, and no cell is emitted at (100000, 0).
\<close>

theorem imageToData_cell_cases_counterexample:
  "well_formed wide_image \<and> 100000 < info_width wide_image \<and> 2 * 0 + 1 < info_height wide_image
   \<and> opaque wide_image 100000 (2 * 0) \<and> opaque wide_image 100000 (2 * 0 + 1)
   \<and> cells_on 100000 0 (imageToData wide_image) = []"
proof -
  have wf: "well_formed wide_image"
    by (simp add: well_formed_def wide_image_def)
  have op: "all_opaque wide_image"
    by (rule rgb_all_opaque) (simp add: wide_image_def)
  have "cells_on 100000 0 (imageToData wide_image) = []"
    by (rule capped_single_row [OF wf op]) (simp_all add: wide_image_def maxCells_def)
  then show ?thesis
    using wf by (simp add: wide_image_def opaque_def alpha_def)
qed

text \<open>
  C2 as stated fails for the same reason: \<open>tall_image\<close> has 1000 * 101 = 101000 positions,
  all opaque, and the output has at most 100000 cells.
\<close>

theorem imageToData_all_opaque_counterexample:
  "well_formed tall_image \<and> all_opaque tall_image
   \<and> length (imageToData tall_image) \<noteq> info_width tall_image * (info_height tall_image div 2)"
proof -
  have wf: "well_formed tall_image"
    by (simp add: well_formed_def tall_image_def)
  have op: "all_opaque tall_image"
    by (rule rgb_all_opaque) (simp add: tall_image_def)
  have "length (imageToData tall_image) \<le> 100000"
    using length_imageToData_le [of tall_image] by (simp add: maxCells_def)
  then show ?thesis
    using wf op by (simp add: tall_image_def)
qed

text \<open>The four cases on \<open>sample_image\<close>: both opaque at (0, 0), lower only at (1, 0).\<close>

theorem imageToData_cell_cases_witness:
  "well_formed sample_image \<and> 0 < info_width sample_image \<and> 1 < info_width sample_image
   \<and> 2 * 0 + 1 < info_height sample_image
   \<and> emitted_before sample_image 0 0 < maxCells \<and> emitted_before sample_image 1 0 < maxCells
   \<and> opaque sample_image 0 0 \<and> opaque sample_image 0 1
   \<and> \<not> opaque sample_image 1 0 \<and> opaque sample_image 1 1
   \<and> cells_on 0 0 (imageToData sample_image) =
        [\<lparr>cell_x = 0, cell_y = 0, cell_char = UPPER_HALF_BLOCK,
          cell_ansi = [ESC] @ ''[38;2;255;0;0m'' @ [ESC] @ ''[48;2;0;0;255m''\<rparr>]
   \<and> cells_on 1 0 (imageToData sample_image) =
        [\<lparr>cell_x = 1, cell_y = 0, cell_char = LOWER_HALF_BLOCK,
          cell_ansi = [ESC] @ ''[38;2;9;8;7m''\<rparr>]"
proof -
  have wf: "well_formed sample_image"
    by (simp add: well_formed_def sample_image_def)
  have dims: "0 < info_width sample_image" "1 < info_width sample_image"
    "2 * 0 + 1 < info_height sample_image"
    by (simp_all add: sample_image_def)
  have op: "opaque sample_image 0 0" "opaque sample_image 0 1"
    "\<not> opaque sample_image 1 0" "opaque sample_image 1 1"
    by (simp_all add: opaque_def alpha_def channel_def sample_image_def)
  have cap: "emitted_before sample_image 0 0 < maxCells" "emitted_before sample_image 1 0 < maxCells"
    by (simp_all add: emitted_before_def positions_before_def maxCells_def)
  have fg: "foreground sample_image 0 0 = [ESC] @ ''[38;2;255;0;0m''"
    "background sample_image 0 1 = [ESC] @ ''[48;2;0;0;255m''"
    "foreground sample_image 1 1 = [ESC] @ ''[38;2;9;8;7m''"
    by (simp_all add: foreground_def background_def channel_def sample_image_def decimal.simps
        digit_char_def)
  show ?thesis
    using imageToData_cell_cases [OF wf dims(1) dims(3)] imageToData_cell_cases [OF wf dims(2) dims(3)]
      wf dims op cap fg
    by simp
qed

text \<open>The count on \<open>opaque_image\<close>: 2 * floor(2/2) = 2 cells, both upper half blocks.\<close>

theorem imageToData_all_opaque_witness:
  "well_formed opaque_image \<and> all_opaque opaque_image
   \<and> length (imageToData opaque_image) = 2
   \<and> map cell_char (imageToData opaque_image) = [UPPER_HALF_BLOCK, UPPER_HALF_BLOCK]"
proof -
  have wf: "well_formed opaque_image"
    by (simp add: well_formed_def opaque_image_def)
  have op: "all_opaque opaque_image"
    by (rule rgb_all_opaque) (simp add: opaque_image_def)
  have len: "length (imageToData opaque_image) = 2"
    using imageToData_all_opaque [OF wf op] by (simp add: opaque_image_def maxCells_def)
  have "\<forall>c \<in> set (imageToData opaque_image). cell_char c = UPPER_HALF_BLOCK"
    using imageToData_all_opaque [OF wf op] by simp
  moreover obtain a b where "imageToData opaque_image = [a, b]"
    using len by (auto simp: length_Suc_conv eval_nat_numeral)
  ultimately show ?thesis
    using wf op by simp
qed

subsection \<open>Bounds on the output, and transparent buffers\<close>

text \<open>
  \<open>all_transparent\<close>: no pixel of the buffer is opaque. \<open>clear_image\<close> is 2 by 2 with four
  channels and every alpha below 128.
\<close>

definition all_transparent :: "imageData \<Rightarrow> bool" where
  "all_transparent img \<longleftrightarrow> (\<forall>x < info_width img. \<forall>y < info_height img. \<not> opaque img x y)"

definition clear_image :: imageData where
  "clear_image = \<lparr>data = [255, 0, 0, 0,  0, 255, 0, 127,  0, 0, 255, 10,  9, 8, 7, 0],
     info_height = 2, info_width = 2, info_channels = 4\<rparr>"

lemma all_cells_member:
  assumes "c \<in> set (all_cells img)"
  obtains k x where "k < info_height img div 2" "x < info_width img" "c \<in> set (cells_at img (2 * k) x)"
  using assms by (auto simp: all_cells_def row_cells_def)

text \<open>
  For every buffer, at most 100000 cells are emitted, and every emitted cell has its x
  below the width and its y below floor(H/2).
\<close>

theorem imageToData_within_bounds:
  "length (imageToData img) \<le> maxCells
   \<and> (\<forall>c \<in> set (imageToData img). cell_x c < info_width img \<and> cell_y c < info_height img div 2)"
proof -
  have "cell_x c < info_width img \<and> cell_y c < info_height img div 2"
    if "c \<in> set (imageToData img)" for c
  proof -
    have "c \<in> set (all_cells img)"
      using that by (auto simp: imageToData_eq dest: in_set_takeD)
    then obtain k x where "k < info_height img div 2" "x < info_width img"
      "c \<in> set (cells_at img (2 * k) x)"
      by (rule all_cells_member)
    then show ?thesis
      using cells_at_coords [of c img "2 * k" x] by simp
  qed
  then show ?thesis
    using length_imageToData_le by blast
qed

text \<open>The bounds on \<open>sample_image\<close>.\<close>

theorem imageToData_within_bounds_witness:
  "length (imageToData sample_image) \<le> 100000
   \<and> list_all (\<lambda>c. cell_x c < 2 \<and> cell_y c < 1) (imageToData sample_image)"
  using imageToData_within_bounds [of sample_image]
  by (simp add: list_all_iff sample_image_def maxCells_def)

text \<open>For every well-formed buffer with no opaque pixel, no cell is emitted.\<close>

theorem imageToData_all_transparent:
  assumes "well_formed img" and "all_transparent img"
  shows "imageToData img = []"
proof -
  have "cells_at img (2 * k) x = []" if "k < info_height img div 2" "x < info_width img" for k x
  proof -
    have k: "2 * k + 1 < info_height img"
      using that(1) by linarith
    then have "\<not> opaque img x (2 * k)" "\<not> opaque img x (2 * k + 1)"
      using assms(2) that(2) by (simp_all add: all_transparent_def)
    then show ?thesis
      by (simp add: cells_at_expected [OF assms(1) that(2) k] expected_cells_def)
  qed
  then have "all_cells img = []"
    by (auto simp: all_cells_def row_cells_def)
  then show ?thesis
    by (simp add: imageToData_eq)
qed

text \<open>No cell on \<open>clear_image\<close>.\<close>

theorem imageToData_all_transparent_witness:
  "well_formed clear_image \<and> all_transparent clear_image \<and> imageToData clear_image = []"
proof -
  have wf: "well_formed clear_image"
    by (simp add: well_formed_def clear_image_def)
  have "\<not> opaque clear_image x y" if "x < 2" "y < 2" for x y
  proof -
    have "x \<in> {0, 1}" "y \<in> {0, 1}"
      using that by auto
    then show ?thesis
      by (auto simp: opaque_def alpha_def channel_def clear_image_def)
  qed
  then have tr: "all_transparent clear_image"
    by (simp add: all_transparent_def clear_image_def)
  show ?thesis
    using imageToData_all_transparent [OF wf tr] wf tr by simp
qed

section \<open>Grid layout\<close>

text \<open>
  C8. For every terminal width and item count the grid layout computes
  columns = max(1, floor((terminalWidth - 2) / (tileWidth + gapWidth))) with
  tileWidth = 32 and gapWidth = 2, so the column count is at least 1 for every terminal
  width, however small; the reported tile width and gap are these constants.
\<close>

theorem calculateGridDimensions_columns:
  "columns (fst (calculateGridDimensions this)) = max 1 ((terminalWidth this - 2) div (32 + 2))
   \<and> itemWidth (fst (calculateGridDimensions this)) = 32
   \<and> gapWidth (fst (calculateGridDimensions this)) = 2
   \<and> columns (fst (calculateGridDimensions this)) \<ge> 1"
  by (simp add: calculateGridDimensions_def js_floor_div_def Let_def)

text \<open>
  C9. Every call of calculateGridDimensions selects the triple-line layout: the threshold
  test 32 * 19 >= 500 is true whatever the terminal size and the item count are, so
  useTripleText is set to true and the returned itemHeight is 19, never 17.
\<close>

theorem calculateGridDimensions_triple:
  "useTripleText (snd (calculateGridDimensions this)) = Some True
   \<and> itemHeight (fst (calculateGridDimensions this)) = 19
   \<and> itemHeight (fst (calculateGridDimensions this)) \<noteq> 17"
  by (simp add: calculateGridDimensions_def Let_def)

section \<open>What rendering leaves unchanged\<close>

text \<open>
  Rendering assigns only \<open>scrollOffset\<close> and \<open>useTripleText\<close>. \<open>same_but_scroll a b\<close>
  says that \<open>b\<close> has the other fields of \<open>a\<close>.
\<close>

lemma calculateGridDimensions_snd: "snd (calculateGridDimensions this) = this\<lparr>useTripleText := Some True\<rparr>"
  by (simp add: calculateGridDimensions_def Let_def)

definition same_but_scroll :: "gui \<Rightarrow> gui \<Rightarrow> bool" where
  "same_but_scroll a b \<longleftrightarrow>
     files b = files a \<and> selectedIndex b = selectedIndex a
     \<and> currentDirectory b = currentDirectory a \<and> viewMode b = viewMode a
     \<and> terminalWidth b = terminalWidth a \<and> terminalHeight b = terminalHeight a
     \<and> maxDisplayLines b = maxDisplayLines a \<and> lastClickTime b = lastClickTime a
     \<and> lastClickTarget b = lastClickTarget a \<and> doubleClickThreshold b = doubleClickThreshold a
     \<and> scrollMode b = scrollMode a \<and> opened b = opened a \<and> mouseEnabled b = mouseEnabled a
     \<and> hoverIndex b = hoverIndex a \<and> disableMouse b = disableMouse a"

lemma same_but_scroll_refl: "same_but_scroll a a"
  by (simp add: same_but_scroll_def)

lemma same_but_scroll_trans: "same_but_scroll a b \<Longrightarrow> same_but_scroll b c \<Longrightarrow> same_but_scroll a c"
  by (simp add: same_but_scroll_def)

lemma same_but_scroll_updates:
  "same_but_scroll a (a\<lparr>scrollOffset := s\<rparr>)" "same_but_scroll a (a\<lparr>useTripleText := t\<rparr>)"
  "same_but_scroll a (a\<lparr>useTripleText := t, scrollOffset := s\<rparr>)"
  by (simp_all add: same_but_scroll_def)

lemma same_but_scroll_drawGridView: "same_but_scroll this (drawGridView this)"
proof -
  obtain dims where d: "calculateGridDimensions this = (dims, this\<lparr>useTripleText := Some True\<rparr>)"
    using calculateGridDimensions_snd [of this] by (cases "calculateGridDimensions this") simp
  show ?thesis
    unfolding drawGridView_def d prod.case Let_def
    by (simp add: same_but_scroll_updates)
qed

lemma same_but_scroll_render: "same_but_scroll this (render this)"
proof -
  have 1: "same_but_scroll this (drawFileList this)"
    by (simp add: drawFileList_def same_but_scroll_refl same_but_scroll_drawGridView)
  have 2: "same_but_scroll x (drawFooter x)" for x
    by (simp add: drawFooter_def same_but_scroll_refl calculateGridDimensions_snd same_but_scroll_updates)
  show ?thesis
    unfolding render_def by (rule same_but_scroll_trans [OF 1 2])
qed

lemma same_but_scroll_fields:
  assumes "same_but_scroll a b"
  shows "files b = files a" "selectedIndex b = selectedIndex a"
    "currentDirectory b = currentDirectory a" "viewMode b = viewMode a"
    "terminalWidth b = terminalWidth a" "terminalHeight b = terminalHeight a"
    "maxDisplayLines b = maxDisplayLines a" "lastClickTime b = lastClickTime a"
    "lastClickTarget b = lastClickTarget a" "doubleClickThreshold b = doubleClickThreshold a"
    "scrollMode b = scrollMode a" "opened b = opened a" "mouseEnabled b = mouseEnabled a"
    "hoverIndex b = hoverIndex a" "disableMouse b = disableMouse a"
  using assms by (simp_all add: same_but_scroll_def)

lemmas render_frame = same_but_scroll_fields [OF same_but_scroll_render]

lemma renderWithClear_eq: "renderWithClear this = render this"
  by (simp add: renderWithClear_def render_def)

text \<open>
  \<open>calculateGridDimensions\<close> returns at least one column, so the bound to which
  \<open>drawGridView\<close> clamps \<open>scrollOffset\<close> is never negative and a zero offset stays zero.
\<close>

lemma columns_positive: "1 \<le> columns (fst (calculateGridDimensions this))"
  by (simp add: calculateGridDimensions_def Let_def)

lemma calculateGridDimensions_fst:
  "calculateGridDimensions this = (fst (calculateGridDimensions this), this\<lparr>useTripleText := Some True\<rparr>)"
  using calculateGridDimensions_snd [of this] by (cases "calculateGridDimensions this") simp

lemma scrollOffset_drawFooter: "scrollOffset (drawFooter this) = scrollOffset this"
  by (simp add: drawFooter_def calculateGridDimensions_snd)

lemma scrollOffset_render_zero:
  assumes "scrollOffset this = 0"
  shows "scrollOffset (render this) = 0"
proof -
  obtain dims where d: "calculateGridDimensions this = (dims, this\<lparr>useTripleText := Some True\<rparr>)"
    using calculateGridDimensions_fst by blast
  have "columns dims \<ge> 1"
    using columns_positive [of this] d by simp
  then have "0 \<le> max 0 (rows dims - min (js_floor_div (maxDisplayLines this) (itemHeight dims)) (rows dims)) * columns dims"
    by simp
  then have "scrollOffset (drawGridView this) = 0"
    unfolding drawGridView_def d using assms by (simp add: Let_def)
  then show ?thesis
    using assms by (simp add: render_def scrollOffset_drawFooter drawFileList_def)
qed

section \<open>The entry list\<close>

text \<open>
  A comparison function is consistent when it is reflexive, antisymmetric in sign and
  transitive. \<open>directories_first\<close> is the order of the entry list: of two entries the later
  one is a directory only if the earlier one is, and two entries of the same kind are in
  the order of \<open>localeCompare\<close> on their names.
\<close>

definition consistent_comparator :: "('a \<Rightarrow> 'a \<Rightarrow> int) \<Rightarrow> bool" where
  "consistent_comparator cmp \<longleftrightarrow>
     (\<forall>a. cmp a a = 0) \<and> (\<forall>a b. cmp a b < 0 \<longleftrightarrow> cmp b a > 0)
     \<and> (\<forall>a b c. cmp a b \<le> 0 \<and> cmp b c \<le> 0 \<longrightarrow> cmp a c \<le> 0)"

lemma set_insert_sorted: "set (insert_sorted cmp a xs) = insert a (set xs)"
  by (induction xs) auto

lemma sorted_insert_sorted:
  assumes total: "\<And>a b. cmp a b \<le> 0 \<or> cmp b a \<le> 0"
    and trans: "\<And>a b c. cmp a b \<le> 0 \<Longrightarrow> cmp b c \<le> 0 \<Longrightarrow> cmp a c \<le> 0"
    and sorted: "sorted_wrt (\<lambda>a b. cmp a b \<le> 0) xs"
  shows "sorted_wrt (\<lambda>a b. cmp a b \<le> 0) (insert_sorted cmp a xs)"
  using sorted
proof (induction xs)
  case Nil
  then show ?case by simp
next
  case (Cons b bs)
  show ?case
  proof (cases "cmp a b \<le> 0")
    case True
    then have "\<forall>y \<in> set bs. cmp a y \<le> 0"
      using Cons.prems trans by auto
    then show ?thesis
      using True Cons.prems by simp
  next
    case False
    then have "cmp b a \<le> 0"
      using total [of a b] by simp
    then show ?thesis
      using False Cons by (auto simp: set_insert_sorted)
  qed
qed

lemma sorted_js_sort:
  assumes total: "\<And>a b. cmp a b \<le> 0 \<or> cmp b a \<le> 0"
    and trans: "\<And>a b c. cmp a b \<le> 0 \<Longrightarrow> cmp b c \<le> 0 \<Longrightarrow> cmp a c \<le> 0"
  shows "sorted_wrt (\<lambda>a b. cmp a b \<le> 0) (js_sort cmp xs)"
  unfolding js_sort_def
  by (induction xs) (simp_all add: sorted_insert_sorted [OF total trans])

lemma set_js_sort: "set (js_sort cmp xs) = set xs"
  unfolding js_sort_def by (induction xs) (simp_all add: set_insert_sorted)

lemma compareItems_total:
  assumes "consistent_comparator (localeCompare e)"
  shows "compareItems e a b \<le> 0 \<or> compareItems e b a \<le> 0"
proof (cases "type a = type b")
  case True
  have "localeCompare e (name a) (name b) \<le> 0 \<or> localeCompare e (name b) (name a) \<le> 0"
    using assms unfolding consistent_comparator_def
    by (metis not_le order_less_imp_le)
  then show ?thesis
    using True by (simp add: compareItems_def)
next
  case False
  then show ?thesis
    by (cases "type a"; cases "type b") (simp_all add: compareItems_def)
qed

lemma compareItems_trans:
  assumes "consistent_comparator (localeCompare e)"
    and "compareItems e a b \<le> 0" and "compareItems e b c \<le> 0"
  shows "compareItems e a c \<le> 0"
proof -
  have tr: "\<And>x y z. localeCompare e x y \<le> 0 \<Longrightarrow> localeCompare e y z \<le> 0 \<Longrightarrow> localeCompare e x z \<le> 0"
    using assms(1) unfolding consistent_comparator_def by blast
  show ?thesis
    using assms(2,3) tr [of "name a" "name b" "name c"]
    by (cases "type a"; cases "type b"; cases "type c") (simp_all add: compareItems_def)
qed

lemma compareItems_order:
  "compareItems e a b \<le> 0 \<Longrightarrow>
     (type b = Directory \<longrightarrow> type a = Directory)
     \<and> (type a = type b \<longrightarrow> localeCompare e (name a) (name b) \<le> 0)"
  by (cases "type a"; cases "type b") (simp_all add: compareItems_def)

definition directories_first :: "env \<Rightarrow> entry list \<Rightarrow> bool" where
  "directories_first e items \<longleftrightarrow>
     sorted_wrt (\<lambda>a b. (type b = Directory \<longrightarrow> type a = Directory)
        \<and> (type a = type b \<longrightarrow> localeCompare e (name a) (name b) \<le> 0)) items"

lemma getMediaFiles_ordered:
  assumes "consistent_comparator (localeCompare e)"
  shows "directories_first e (getMediaFiles e this)"
proof -
  have "sorted_wrt (\<lambda>a b. compareItems e a b \<le> 0) (js_sort (compareItems e) items)" for items
    by (rule sorted_js_sort) (use compareItems_total [OF assms] compareItems_trans [OF assms] in blast)+
  then have "directories_first e (js_sort (compareItems e) items)" for items
    unfolding directories_first_def
    by (rule sorted_wrt_mono_rel [rotated]) (use compareItems_order in blast)
  then show ?thesis
    by (simp add: getMediaFiles_def directories_first_def split: option.splits)
qed

lemma collectItems_kept:
  assumes "collectItems e dir listing items = Some out"
    and "\<forall>item \<in> set items. type item = Directory \<or> isMediaFile (name item)"
  shows "\<forall>item \<in> set out. type item = Directory \<or> isMediaFile (name item)"
  using assms
  by (induction e dir listing items rule: collectItems.induct)
     (auto simp: Let_def split: if_splits option.splits)

lemma getMediaFiles_kept:
  "\<forall>item \<in> set (getMediaFiles e this). type item = Directory \<or> isMediaFile (name item)"
proof (cases "readdirSync e (currentDirectory this)")
  case None
  then show ?thesis
    by (simp add: getMediaFiles_def)
next
  case (Some listing)
  show ?thesis
  proof (cases "collectItems e (currentDirectory this) listing []")
    case None
    then show ?thesis
      using Some by (simp add: getMediaFiles_def)
  next
    case (Some out)
    then have "\<forall>item \<in> set out. type item = Directory \<or> isMediaFile (name item)"
      using collectItems_kept [of e "currentDirectory this" listing "[]" out] by simp
    then show ?thesis
      using Some \<open>readdirSync e (currentDirectory this) = Some listing\<close>
      by (simp add: getMediaFiles_def set_js_sort)
  qed
qed

lemma getMediaFiles_cong:
  "currentDirectory a = currentDirectory b \<Longrightarrow> getMediaFiles e a = getMediaFiles e b"
  unfolding getMediaFiles_def by (simp only:)

lemma files_navigateToDirectory:
  "files (navigateToDirectory e dirPath this)
     = getMediaFiles e (this\<lparr>currentDirectory := dirPath\<rparr>)"
proof -
  have "files (navigateToDirectory e dirPath this)
      = getMediaFiles e (this\<lparr>opened := opened this @ [NavigateToDirectory dirPath],
          currentDirectory := dirPath, selectedIndex := 0, scrollOffset := 0\<rparr>)"
    by (simp add: navigateToDirectory_def Let_def render_frame)
  also have "\<dots> = getMediaFiles e (this\<lparr>currentDirectory := dirPath\<rparr>)"
    by (rule getMediaFiles_cong) simp
  finally show ?thesis .
qed

subsection \<open>The entries that are kept\<close>

text \<open>
  \<open>entry_of e dir file\<close> is the entry that one pass of the loop pushes for the name
  \<open>file\<close>: none for \<open>.\<close> and \<open>..\<close>, a directory entry when \<open>statSync\<close> reports a
  directory, a file entry when the name has a supported media extension, and none
  otherwise. \<open>listed_entries\<close> are the entries of a listing, in its order, and
  \<open>stats_known\<close> says that \<open>statSync\<close> succeeds on every name of the listing that the
  loop looks up.
\<close>

definition entry_of :: "env \<Rightarrow> string \<Rightarrow> string \<Rightarrow> entry option" where
  "entry_of e dir file =
     (if file = ''.'' \<or> file = ''..'' then None
      else case statSync e (path_join dir file) of
             None \<Rightarrow> None
           | Some st \<Rightarrow>
               if isDirectory st then
                 Some \<lparr>name = file, path = path_join dir file, type = Directory, size = 0,
                       extension = ''''\<rparr>
               else if isMediaFile file then
                 Some \<lparr>name = file, path = path_join dir file, type = File, size = stat_size st,
                       extension = toLowerCase (extname file)\<rparr>
               else None)"

definition listed_entries :: "env \<Rightarrow> string \<Rightarrow> string list \<Rightarrow> entry list" where
  "listed_entries e dir listing = List.map_filter (entry_of e dir) listing"

definition stats_known :: "env \<Rightarrow> string \<Rightarrow> string list \<Rightarrow> bool" where
  "stats_known e dir listing \<longleftrightarrow>
     (\<forall>file \<in> set listing. file \<noteq> ''.'' \<and> file \<noteq> ''..'' \<longrightarrow> statSync e (path_join dir file) \<noteq> None)"

lemma collectItems_listed:
  "stats_known e dir listing \<Longrightarrow>
     collectItems e dir listing items = Some (items @ listed_entries e dir listing)"
proof (induction listing arbitrary: items)
  case Nil
  then show ?case by (simp add: listed_entries_def List.map_filter_simps)
next
  case (Cons f rest)
  have r: "stats_known e dir rest"
    using Cons.prems by (simp add: stats_known_def)
  show ?case
  proof (cases "f = ''.'' \<or> f = ''..''")
    case True
    then show ?thesis
      using Cons.IH [OF r] by (auto simp add: listed_entries_def List.map_filter_simps entry_of_def)
  next
    case False
    then obtain st where st: "statSync e (path_join dir f) = Some st"
      using Cons.prems by (auto simp: stats_known_def)
    show ?thesis
      using False st Cons.IH [OF r]
      by (simp add: listed_entries_def List.map_filter_simps entry_of_def Let_def)
  qed
qed

lemma collectItems_throws:
  "\<not> stats_known e dir listing \<Longrightarrow> collectItems e dir listing items = None"
proof (induction listing arbitrary: items)
  case Nil
  then show ?case by (simp add: stats_known_def)
next
  case (Cons f rest)
  show ?case
  proof (cases "f = ''.'' \<or> f = ''..''")
    case True
    then have "\<not> stats_known e dir rest"
      using Cons.prems by (auto simp: stats_known_def)
    then show ?thesis
      using True Cons.IH by auto
  next
    case False
    show ?thesis
    proof (cases "statSync e (path_join dir f)")
      case None
      then show ?thesis
        using False by simp
    next
      case (Some st)
      then have "\<not> stats_known e dir rest"
        using Cons.prems by (auto simp: stats_known_def)
      then show ?thesis
        using False Some Cons.IH by (simp add: Let_def)
    qed
  qed
qed

lemma mset_insert_sorted: "mset (insert_sorted cmp a xs) = add_mset a (mset xs)"
  by (induction xs) simp_all

lemma mset_js_sort: "mset (js_sort cmp xs) = mset xs"
  unfolding js_sort_def by (induction xs) (simp_all add: mset_insert_sorted)

lemma getMediaFiles_listed:
  assumes "readdirSync e (currentDirectory this) = Some listing"
    and "stats_known e (currentDirectory this) listing"
  shows "mset (getMediaFiles e this) = mset (listed_entries e (currentDirectory this) listing)"
  using assms(1) collectItems_listed [OF assms(2), of "[]"]
  by (simp add: getMediaFiles_def mset_js_sort)

lemma getMediaFiles_throws:
  assumes "readdirSync e (currentDirectory this) = None
     \<or> (readdirSync e (currentDirectory this) = Some listing
         \<and> \<not> stats_known e (currentDirectory this) listing)"
  shows "getMediaFiles e this = []"
  using assms collectItems_throws [of e "currentDirectory this" listing "[]"]
  by (auto simp: getMediaFiles_def)

lemma mset_map_filter_cong:
  "mset xs = mset ys \<Longrightarrow> mset (List.map_filter f xs) = mset (List.map_filter f ys)"
  unfolding List.map_filter_def
  by (simp only: mset_map mset_filter)

lemma two_entries:
  assumes "mset xs = mset [a, b]"
  shows "xs = [a, b] \<or> xs = [b, a]"
proof -
  have "length xs = 2"
    using mset_eq_length [OF assms] by simp
  then obtain x y where xs: "xs = [x, y]"
    by (cases xs; cases "tl xs"; auto)
  show ?thesis
    using assms unfolding xs by (auto simp: add_eq_conv_diff)
qed

subsection \<open>A concrete file system\<close>

text \<open>
  \<open>ordinalCompare\<close> compares strings by character code; it stands for \<open>localeCompare\<close>
  in the concrete examples. \<open>sample_env\<close> has the directory \<open>/pics\<close> with the files
  \<open>b.txt\<close> and \<open>a.png\<close> and the empty subdirectory \<open>Sub\<close>, and the directory \<open>/album\<close>
  with ten images. \<open>sample_gui\<close> is a freshly constructed browser on an 80 by 24
  terminal.
\<close>

definition ordinalCompare :: "string \<Rightarrow> string \<Rightarrow> int" where
  "ordinalCompare a b = (if a < b then - 1 else if a = b then 0 else 1)"

definition sample_env :: env where
  "sample_env =
     \<lparr>readdirSync = (\<lambda>d. if d = ''/pics'' then Some [''b.txt'', ''a.png'', ''Sub'']
                         else if d = ''/pics/Sub'' then Some []
                         else if d = ''/album'' then
                           Some [''9.png'', ''0.png'', ''1.png'', ''2.png'', ''3.png'', ''4.png'',
                                 ''5.png'', ''6.png'', ''7.png'', ''8.png'']
                         else None),
      statSync = (\<lambda>p. if p = ''/pics/Sub'' then Some \<lparr>isDirectory = True, stat_size = 4096\<rparr>
                      else Some \<lparr>isDirectory = False, stat_size = 1000\<rparr>),
      localeCompare = ordinalCompare\<rparr>"

definition sample_gui :: gui where
  "sample_gui = TerminalGUI_constructor ''/'' (Some 80) (Some 24) []"

lemma consistent_ordinalCompare: "consistent_comparator ordinalCompare"
  by (auto simp: consistent_comparator_def ordinalCompare_def)

lemma isMediaFile_samples:
  "\<not> isMediaFile ''b.txt''" "isMediaFile ''a.png''"
  by (simp_all add: isMediaFile_def extname_def toLowerCase_def toLowerCase_char_def
      SUPPORTED_EXTENSIONS_def)

lemma scenario_listing:
  assumes "readdirSync e dirPath = Some [''b.txt'', ''a.png'', ''Sub'']"
    and "map_option isDirectory (statSync e (path_join dirPath ''b.txt'')) = Some False"
    and "map_option isDirectory (statSync e (path_join dirPath ''a.png'')) = Some False"
    and "map_option isDirectory (statSync e (path_join dirPath ''Sub'')) = Some True"
  shows "map name (getMediaFiles e (this\<lparr>currentDirectory := dirPath\<rparr>)) = [''Sub'', ''a.png'']"
proof -
  obtain s1 s2 s3 where st:
    "statSync e (path_join dirPath ''b.txt'') = Some s1" "\<not> isDirectory s1"
    "statSync e (path_join dirPath ''a.png'') = Some s2" "\<not> isDirectory s2"
    "statSync e (path_join dirPath ''Sub'') = Some s3" "isDirectory s3"
    using assms(2-4) by auto
  have "collectItems e dirPath [''b.txt'', ''a.png'', ''Sub''] [] =
      Some [\<lparr>name = ''a.png'', path = path_join dirPath ''a.png'', type = File, size = stat_size s2,
              extension = toLowerCase (extname ''a.png'')\<rparr>,
            \<lparr>name = ''Sub'', path = path_join dirPath ''Sub'', type = Directory, size = 0,
              extension = ''''\<rparr>]"
    by (simp add: st isMediaFile_samples Let_def)
  then show ?thesis
    using assms(1) by (simp add: getMediaFiles_def js_sort_def compareItems_def)
qed

text \<open>
  \<open>reordered_env\<close> is \<open>sample_env\<close> with the names of every directory listed in the
  order \<open>Sub\<close>, \<open>a.png\<close>, \<open>b.txt\<close>.
\<close>

definition reordered_env :: env where
  "reordered_env = sample_env\<lparr>readdirSync := (\<lambda>d. Some [''Sub'', ''a.png'', ''b.txt''])\<rparr>"

lemma scenario_any_order:
  assumes cons: "consistent_comparator (localeCompare e)"
    and rd: "readdirSync e dirPath = Some listing"
    and listing: "mset listing = mset [''b.txt'', ''a.png'', ''Sub'']"
    and st1: "map_option isDirectory (statSync e (path_join dirPath ''b.txt'')) = Some False"
    and st2: "map_option isDirectory (statSync e (path_join dirPath ''a.png'')) = Some False"
    and st3: "map_option isDirectory (statSync e (path_join dirPath ''Sub'')) = Some True"
  shows "map name (getMediaFiles e (this\<lparr>currentDirectory := dirPath\<rparr>)) = [''Sub'', ''a.png'']"
proof -
  let ?g = "this\<lparr>currentDirectory := dirPath\<rparr>"
  obtain s1 s2 s3 where st:
    "statSync e (path_join dirPath ''b.txt'') = Some s1" "\<not> isDirectory s1"
    "statSync e (path_join dirPath ''a.png'') = Some s2" "\<not> isDirectory s2"
    "statSync e (path_join dirPath ''Sub'') = Some s3" "isDirectory s3"
    using st1 st2 st3 by auto
  define A where "A = \<lparr>name = ''a.png'', path = path_join dirPath ''a.png'', type = File,
    size = stat_size s2, extension = toLowerCase (extname ''a.png'')\<rparr>"
  define S where "S = \<lparr>name = ''Sub'', path = path_join dirPath ''Sub'', type = Directory,
    size = 0, extension = ''''\<rparr>"
  have "set listing = set [''b.txt'', ''a.png'', ''Sub'']"
    using listing by (rule mset_eq_setD)
  then have known: "stats_known e (currentDirectory ?g) listing"
    using st by (auto simp: stats_known_def)
  have "mset (getMediaFiles e ?g) = mset (listed_entries e (currentDirectory ?g) listing)"
    using rd known by (intro getMediaFiles_listed) simp_all
  also have "\<dots> = mset (listed_entries e dirPath listing)"
    by simp
  also have "\<dots> = mset (listed_entries e dirPath [''b.txt'', ''a.png'', ''Sub''])"
    unfolding listed_entries_def using listing by (rule mset_map_filter_cong)
  also have "listed_entries e dirPath [''b.txt'', ''a.png'', ''Sub''] = [A, S]"
    by (simp add: listed_entries_def List.map_filter_simps entry_of_def st isMediaFile_samples A_def S_def)
  finally have "getMediaFiles e ?g = [A, S] \<or> getMediaFiles e ?g = [S, A]"
    by (rule two_entries)
  moreover have "directories_first e (getMediaFiles e ?g)"
    by (rule getMediaFiles_ordered [OF cons])
  moreover have "\<not> directories_first e [A, S]"
    by (simp add: directories_first_def A_def S_def)
  ultimately have "getMediaFiles e ?g = [S, A]"
    by auto
  then show ?thesis
    by (simp add: A_def S_def)
qed

text \<open>
  C3, as amended. After navigateToDirectory (or any other call of getMediaFiles) rebuilds
  the entry list, for a consistent locale comparison: all directories come before all
  files and each kind is ordered by localeCompare on the names; the list holds only
  directories and files with a supported media extension, and when the directory and its
  entries can be read it holds exactly the subdirectories and the files with a supported
  media extension of the listing, each once per occurrence in the listing (when reading
  the directory or one of its entries fails, the list is empty); in particular
  a directory containing the files b.txt and a.png and the subdirectory Sub, listed in
  any order, yields the entry order [Sub, a.png] (b.txt is not a media file and is left
  out).
\<close>

theorem navigateToDirectory_entries_ordered:
  assumes "consistent_comparator (localeCompare e)"
  shows "directories_first e (files (navigateToDirectory e dirPath this))
     \<and> (\<forall>item \<in> set (files (navigateToDirectory e dirPath this)).
           type item = Directory \<or> isMediaFile (name item))
     \<and> (readdirSync e dirPath = Some listing \<and> stats_known e dirPath listing
        \<longrightarrow> mset (files (navigateToDirectory e dirPath this)) = mset (listed_entries e dirPath listing))
     \<and> (readdirSync e dirPath = None
          \<or> (readdirSync e dirPath = Some listing \<and> \<not> stats_known e dirPath listing)
        \<longrightarrow> files (navigateToDirectory e dirPath this) = [])
     \<and> (readdirSync e dirPath = Some listing
          \<and> mset listing = mset [''b.txt'', ''a.png'', ''Sub'']
          \<and> map_option isDirectory (statSync e (path_join dirPath ''b.txt'')) = Some False
          \<and> map_option isDirectory (statSync e (path_join dirPath ''a.png'')) = Some False
          \<and> map_option isDirectory (statSync e (path_join dirPath ''Sub'')) = Some True
        \<longrightarrow> map name (files (navigateToDirectory e dirPath this)) = [''Sub'', ''a.png''])"
proof -
  let ?g = "this\<lparr>currentDirectory := dirPath\<rparr>"
  have 1: "directories_first e (getMediaFiles e ?g)"
    by (rule getMediaFiles_ordered [OF assms])
  have 2: "\<forall>item \<in> set (getMediaFiles e ?g). type item = Directory \<or> isMediaFile (name item)"
    by (rule getMediaFiles_kept)
  have 3: "mset (getMediaFiles e ?g) = mset (listed_entries e dirPath listing)"
    if "readdirSync e dirPath = Some listing" "stats_known e dirPath listing"
    using getMediaFiles_listed [of e ?g listing] that by simp
  have 4: "map name (getMediaFiles e ?g) = [''Sub'', ''a.png'']"
    if "readdirSync e dirPath = Some listing"
      "mset listing = mset [''b.txt'', ''a.png'', ''Sub'']"
      "map_option isDirectory (statSync e (path_join dirPath ''b.txt'')) = Some False"
      "map_option isDirectory (statSync e (path_join dirPath ''a.png'')) = Some False"
      "map_option isDirectory (statSync e (path_join dirPath ''Sub'')) = Some True"
    using assms that by (rule scenario_any_order)
  have 5: "getMediaFiles e ?g = []"
    if "readdirSync e dirPath = None
      \<or> (readdirSync e dirPath = Some listing \<and> \<not> stats_known e dirPath listing)"
    using getMediaFiles_throws [of e ?g listing] that by simp
  show ?thesis
    unfolding files_navigateToDirectory using 1 2 3 4 5 by blast
qed

text \<open>
  C3 as stated fails on its own example: the listing [b.txt, a.png, Sub] gives the names
  [Sub, a.png], not [Sub, a.png, b.txt].
\<close>

theorem navigateToDirectory_entries_ordered_counterexample:
  "readdirSync sample_env ''/pics'' = Some [''b.txt'', ''a.png'', ''Sub'']
   \<and> map name (files (navigateToDirectory sample_env ''/pics'' sample_gui)) = [''Sub'', ''a.png'']
   \<and> map name (files (navigateToDirectory sample_env ''/pics'' sample_gui)) \<noteq> [''Sub'', ''a.png'', ''b.txt'']"
proof -
  have "map name (getMediaFiles sample_env (sample_gui\<lparr>currentDirectory := ''/pics''\<rparr>)) = [''Sub'', ''a.png'']"
    by (rule scenario_listing) (simp_all add: sample_env_def path_join_def)
  then show ?thesis
    by (simp add: files_navigateToDirectory sample_env_def)
qed

text \<open>
  On \<open>sample_env\<close>, whose comparison is consistent: the entries of \<open>/album\<close> are in
  order, \<open>/pics\<close> yields the two entries of \<open>Sub\<close> and \<open>a.png\<close>, and the names are
  \<open>Sub\<close>, \<open>a.png\<close> for the listing order of \<open>sample_env\<close> and for that of
  \<open>reordered_env\<close>; the directory \<open>/none\<close>, which cannot be read, yields no entry.
\<close>

theorem navigateToDirectory_entries_ordered_witness:
  "consistent_comparator (localeCompare sample_env)
   \<and> directories_first sample_env (files (navigateToDirectory sample_env ''/album'' sample_gui))
   \<and> mset (files (navigateToDirectory sample_env ''/pics'' sample_gui))
       = mset [\<lparr>name = ''a.png'', path = ''/pics/a.png'', type = File, size = 1000,
                 extension = ''.png''\<rparr>,
               \<lparr>name = ''Sub'', path = ''/pics/Sub'', type = Directory, size = 0,
                 extension = ''''\<rparr>]
   \<and> map name (files (navigateToDirectory sample_env ''/pics'' sample_gui)) = [''Sub'', ''a.png'']
   \<and> readdirSync reordered_env ''/pics'' = Some [''Sub'', ''a.png'', ''b.txt'']
   \<and> map name (files (navigateToDirectory reordered_env ''/pics'' sample_gui)) = [''Sub'', ''a.png'']
   \<and> readdirSync sample_env ''/none'' = None
   \<and> files (navigateToDirectory sample_env ''/none'' sample_gui) = []"
proof -
  have c: "consistent_comparator (localeCompare sample_env)"
    by (simp add: sample_env_def consistent_ordinalCompare)
  have c': "consistent_comparator (localeCompare reordered_env)"
    by (simp add: reordered_env_def sample_env_def consistent_ordinalCompare)
  have known: "stats_known sample_env ''/pics'' [''b.txt'', ''a.png'', ''Sub'']"
    by (simp add: stats_known_def sample_env_def)
  have listed: "listed_entries sample_env ''/pics'' [''b.txt'', ''a.png'', ''Sub'']
      = [\<lparr>name = ''a.png'', path = ''/pics/a.png'', type = File, size = 1000,
            extension = ''.png''\<rparr>,
         \<lparr>name = ''Sub'', path = ''/pics/Sub'', type = Directory, size = 0,
            extension = ''''\<rparr>]"
    by (simp add: listed_entries_def List.map_filter_simps entry_of_def sample_env_def
        path_join_def isMediaFile_samples extname_def toLowerCase_def toLowerCase_char_def)
  have perm: "mset [''Sub'', ''a.png'', ''b.txt''] = mset [''b.txt'', ''a.png'', ''Sub'']"
    by (simp add: add_mset_commute)
  note album = navigateToDirectory_entries_ordered
    [OF c, where dirPath = "''/album''" and this = sample_gui]
  note pics = navigateToDirectory_entries_ordered
    [OF c, where dirPath = "''/pics''" and this = sample_gui
      and listing = "[''b.txt'', ''a.png'', ''Sub'']"]
  note reordered = navigateToDirectory_entries_ordered
    [OF c', where dirPath = "''/pics''" and this = sample_gui
      and listing = "[''Sub'', ''a.png'', ''b.txt'']"]
  note none = navigateToDirectory_entries_ordered
    [OF c, where dirPath = "''/none''" and this = sample_gui]
  have 1: "directories_first sample_env (files (navigateToDirectory sample_env ''/album'' sample_gui))"
    using album by (rule conjunct1)
  have 2: "mset (files (navigateToDirectory sample_env ''/pics'' sample_gui))
      = mset (listed_entries sample_env ''/pics'' [''b.txt'', ''a.png'', ''Sub''])"
    using pics known by (simp add: sample_env_def)
  have 3: "map name (files (navigateToDirectory sample_env ''/pics'' sample_gui)) = [''Sub'', ''a.png'']"
    using pics by (simp add: sample_env_def path_join_def)
  have 4: "readdirSync reordered_env ''/pics'' = Some [''Sub'', ''a.png'', ''b.txt'']"
    by (simp add: reordered_env_def)
  have 5: "map name (files (navigateToDirectory reordered_env ''/pics'' sample_gui)) = [''Sub'', ''a.png'']"
    using reordered perm by (simp add: reordered_env_def sample_env_def path_join_def)
  have 6: "readdirSync sample_env ''/none'' = None"
    by (simp add: sample_env_def)
  have 7: "files (navigateToDirectory sample_env ''/none'' sample_gui) = []"
    using none 6 by simp
  show ?thesis
    using c 1 2 [unfolded listed] 3 4 5 6 7 by (intro conjI)
qed

lemma album_files:
  "map name (getMediaFiles sample_env (this\<lparr>currentDirectory := ''/album''\<rparr>))
     = [''0.png'', ''1.png'', ''2.png'', ''3.png'', ''4.png'', ''5.png'', ''6.png'', ''7.png'',
        ''8.png'', ''9.png'']"
  by (simp add: getMediaFiles_def sample_env_def path_join_def isMediaFile_def extname_def
      toLowerCase_def toLowerCase_char_def SUPPORTED_EXTENSIONS_def Let_def js_sort_def
      compareItems_def ordinalCompare_def less_char_def)

subsection \<open>Concrete states of the browser\<close>

text \<open>The browser after navigating to \<open>/pics\<close> and to \<open>/album\<close> of \<open>sample_env\<close>.\<close>

definition pics_gui :: gui where
  "pics_gui = navigateToDirectory sample_env ''/pics'' sample_gui"

definition album_gui :: gui where
  "album_gui = navigateToDirectory sample_env ''/album'' sample_gui"

lemma sample_gui_fields:
  "selectedIndex sample_gui = 0" "scrollOffset sample_gui = 0" "maxDisplayLines sample_gui = 19"
  "terminalWidth sample_gui = 80" "terminalHeight sample_gui = 24" "viewMode sample_gui = GridView"
  "lastClickTarget sample_gui = None" "lastClickTime sample_gui = 0"
  "doubleClickThreshold sample_gui = 500" "opened sample_gui = []" "scrollMode sample_gui = False"
  by (simp_all add: sample_gui_def TerminalGUI_constructor_def js_or_def)

lemma navigateToDirectory_fields:
  "selectedIndex (navigateToDirectory e d this) = 0"
  "currentDirectory (navigateToDirectory e d this) = d"
  "maxDisplayLines (navigateToDirectory e d this) = maxDisplayLines this"
  "terminalWidth (navigateToDirectory e d this) = terminalWidth this"
  "terminalHeight (navigateToDirectory e d this) = terminalHeight this"
  "viewMode (navigateToDirectory e d this) = viewMode this"
  "lastClickTarget (navigateToDirectory e d this) = lastClickTarget this"
  "lastClickTime (navigateToDirectory e d this) = lastClickTime this"
  "doubleClickThreshold (navigateToDirectory e d this) = doubleClickThreshold this"
  "scrollMode (navigateToDirectory e d this) = scrollMode this"
  "opened (navigateToDirectory e d this) = opened this @ [NavigateToDirectory d]"
  "scrollOffset (navigateToDirectory e d this) = 0"
  by (simp_all add: navigateToDirectory_def Let_def render_frame scrollOffset_render_zero)

lemma pics_files_names:
  "map name (getMediaFiles sample_env (pics_gui\<lparr>selectedIndex := 5\<rparr>)) = [''Sub'', ''a.png'']"
proof -
  have "getMediaFiles sample_env (pics_gui\<lparr>selectedIndex := 5\<rparr>)
      = getMediaFiles sample_env (sample_gui\<lparr>currentDirectory := ''/pics''\<rparr>)"
    by (rule getMediaFiles_cong) (simp add: pics_gui_def navigateToDirectory_fields)
  moreover have "map name (getMediaFiles sample_env (sample_gui\<lparr>currentDirectory := ''/pics''\<rparr>))
      = [''Sub'', ''a.png'']"
    by (rule scenario_listing) (simp_all add: sample_env_def path_join_def)
  ultimately show ?thesis
    by (simp only:)
qed

lemma sub_files_empty:
  "getMediaFiles sample_env (pics_gui\<lparr>selectedIndex := 5, currentDirectory := ''/pics/Sub''\<rparr>) = []"
proof -
  have "readdirSync sample_env ''/pics/Sub'' = Some []"
    by (simp add: sample_env_def)
  then show ?thesis
    by (simp add: getMediaFiles_def js_sort_def)
qed

section \<open>The gallery\<close>

text \<open>
  The invariant of the slider: the index is within the image list, and the scroll offset
  is between 0 and the height of the composed image less the rows available for it
  (\<open>terminalHeight - 6\<close>), or 0 when the image fits.
\<close>

definition slider_invariant :: "slider \<Rightarrow> bool" where
  "slider_invariant this \<longleftrightarrow>
     0 \<le> currentIndex this \<and> currentIndex this \<le> int (length (imagePaths this)) - 1
     \<and> 0 \<le> slider_scrollOffset this
     \<and> slider_scrollOffset this \<le> max 0 (imageHeight this - (slider_terminalHeight this - 6))"

lemma constructor_invariant:
  assumes "0 \<le> startIndex" and "startIndex < int (length paths)"
  shows "slider_invariant (ImageGallerySlider_constructor paths startIndex stdout_columns stdout_rows)"
  using assms by (simp add: slider_invariant_def ImageGallerySlider_constructor_def)

text \<open>
  C7. While a gallery is active over a non-empty image list of length n, every gallery
  input step (left arrow: previous, right arrow: next, up arrow: scroll up, down arrow:
  scroll down), whatever the decoding of the image gives, leaves the slider running and
  preserves 0 <= currentIndex <= n - 1 and
  0 <= scrollOffset <= max(0, imageHeight - (terminalHeight - 6)); the image list is
  unchanged, previous moves the index down by at most one and never up, next moves it up
  by at most one and never down (no wraparound), and scrolling keeps it.
\<close>

theorem handleKey_invariant:
  assumes "slider_invariant this" and "imagePaths this \<noteq> []"
    and "key \<in> {ESC # ''[D'', ESC # ''[C'', ESC # ''[A'', ESC # ''[B''}"
  shows "\<exists>this'. handleKey key outcome this = Running this' \<and> slider_invariant this'
           \<and> imagePaths this' = imagePaths this
           \<and> (key = ESC # ''[D'' \<longrightarrow>
                  currentIndex this - 1 \<le> currentIndex this' \<and> currentIndex this' \<le> currentIndex this)
           \<and> (key = ESC # ''[C'' \<longrightarrow>
                  currentIndex this \<le> currentIndex this' \<and> currentIndex this' \<le> currentIndex this + 1)
           \<and> (key = ESC # ''[A'' \<or> key = ESC # ''[B'' \<longrightarrow> currentIndex this' = currentIndex this)"
proof (cases "isNavigating this")
  case True
  then show ?thesis
    using assms(1) by (simp add: handleKey_def)
next
  case False
  have esc: "ESC # ''[D'' \<noteq> [ESC]" "ESC # ''[C'' \<noteq> [ESC]" "ESC # ''[A'' \<noteq> [ESC]" "ESC # ''[B'' \<noteq> [ESC]"
    "ESC # ''[D'' \<noteq> ''q''" "ESC # ''[C'' \<noteq> ''q''" "ESC # ''[A'' \<noteq> ''q''" "ESC # ''[B'' \<noteq> ''q''"
    "ESC # ''[D'' \<noteq> ''Q''" "ESC # ''[C'' \<noteq> ''Q''" "ESC # ''[A'' \<noteq> ''Q''" "ESC # ''[B'' \<noteq> ''Q''"
    by simp_all
  consider (left) "key = ESC # ''[D''" | (right) "key = ESC # ''[C''"
    | (up) "key = ESC # ''[A''" | (down) "key = ESC # ''[B''"
    using assms(3) by auto
  then show ?thesis
  proof cases
    case left
    show ?thesis
    proof (cases "currentIndex this > 0")
      case True
      have "\<exists>this'. showCurrentImage outcome (this\<lparr>isNavigating := True, currentIndex := currentIndex this - 1\<rparr>) = Inr this'
          \<and> slider_invariant this' \<and> imagePaths this' = imagePaths this
          \<and> currentIndex this' = currentIndex this - 1"
        using assms(1) True
        by (auto simp: showCurrentImage_def slider_invariant_def js_nth_def calculateImageDimensions_def
            displayWithNavigation_def Let_def split: generate_outcome.splits option.splits)
      then show ?thesis
        using False True left esc by (auto simp: handleKey_def Let_def slider_invariant_def)
    next
      case nonpos: False
      then show ?thesis
        using False left esc assms(1) by (auto simp: handleKey_def Let_def slider_invariant_def)
    qed
  next
    case right
    show ?thesis
    proof (cases "currentIndex this < int (length (imagePaths this)) - 1")
      case True
      have "\<exists>this'. showCurrentImage outcome (this\<lparr>isNavigating := True, currentIndex := currentIndex this + 1\<rparr>) = Inr this'
          \<and> slider_invariant this' \<and> imagePaths this' = imagePaths this
          \<and> currentIndex this' = currentIndex this + 1"
        using assms(1) True
        by (auto simp: showCurrentImage_def slider_invariant_def js_nth_def calculateImageDimensions_def
            displayWithNavigation_def Let_def split: generate_outcome.splits option.splits)
      then show ?thesis
        using False True right esc by (auto simp: handleKey_def Let_def slider_invariant_def)
    next
      case last: False
      then show ?thesis
        using False right esc assms(1) by (auto simp: handleKey_def Let_def slider_invariant_def)
    qed
  next
    case up
    then show ?thesis
      using False esc assms(1)
      by (auto simp: handleKey_def Let_def slider_invariant_def displayWithNavigation_def)
  next
    case down
    then show ?thesis
      using False esc assms(1)
      by (auto simp: handleKey_def Let_def slider_invariant_def displayWithNavigation_def)
  qed
qed

text \<open>
  A slider on three images, started at the middle one on an 80 by 24 terminal; the next
  image decodes to the cells of \<open>sample_image\<close>.
\<close>

definition sample_slider :: slider where
  "sample_slider =
     ImageGallerySlider_constructor [''/album/0.png'', ''/album/1.png'', ''/album/2.png''] 1
       (Some 80) (Some 24)"

theorem handleKey_invariant_witness:
  "slider_invariant sample_slider \<and> imagePaths sample_slider \<noteq> []
   \<and> (\<exists>this'. handleKey (ESC # ''[C'') (Resolves (Some (CellArray (imageToData sample_image))))
                 sample_slider = Running this'
          \<and> slider_invariant this' \<and> imagePaths this' = imagePaths sample_slider
          \<and> 1 \<le> currentIndex this' \<and> currentIndex this' \<le> 2)"
proof -
  have inv: "slider_invariant sample_slider"
    unfolding sample_slider_def by (rule constructor_invariant) simp_all
  have ne: "imagePaths sample_slider \<noteq> []"
    by (simp add: sample_slider_def ImageGallerySlider_constructor_def)
  show ?thesis
    using handleKey_invariant [OF inv ne, of "ESC # ''[C''"
        "Resolves (Some (CellArray (imageToData sample_image)))"] inv ne
    by (auto simp: slider_invariant_def sample_slider_def ImageGallerySlider_constructor_def)
qed

section \<open>Refreshing the entry list\<close>

subsection \<open>From the selection that an empty listing leaves\<close>

text \<open>
  \<open>emptied_gui\<close> is the browser on an 80 by 24 terminal after navigating into the empty
  directory \<open>/pics/Sub\<close> of \<open>sample_env\<close> and refreshing there (the key \<open>r\<close>).
  \<open>later_env\<close> is \<open>sample_env\<close> once the file \<open>a.png\<close> has appeared in \<open>/pics/Sub\<close>.
\<close>

definition later_env :: env where
  "later_env = sample_env\<lparr>readdirSync :=
     (\<lambda>d. if d = ''/pics/Sub'' then Some [''a.png''] else readdirSync sample_env d)\<rparr>"

definition emptied_gui :: gui where
  "emptied_gui = refresh sample_env (navigateToDirectory sample_env ''/pics/Sub'' sample_gui)"

lemma refresh_fields:
  "files (refresh e this) = getMediaFiles e this"
  "selectedIndex (refresh e this) = min (selectedIndex this) (int (length (getMediaFiles e this)) - 1)"
  "currentDirectory (refresh e this) = currentDirectory this"
  by (simp_all add: refresh_def Let_def render_frame)

lemma emptied_gui_fields:
  "files emptied_gui = []" "selectedIndex emptied_gui = - 1"
  "currentDirectory emptied_gui = ''/pics/Sub''"
proof -
  let ?g = "navigateToDirectory sample_env ''/pics/Sub'' sample_gui"
  have d: "currentDirectory ?g = ''/pics/Sub''" and s: "selectedIndex ?g = 0"
    by (simp_all add: navigateToDirectory_fields)
  have "readdirSync sample_env ''/pics/Sub'' = Some []"
    by (simp add: sample_env_def)
  then have f: "getMediaFiles sample_env ?g = []"
    by (simp add: getMediaFiles_def d js_sort_def)
  show "files emptied_gui = []" "selectedIndex emptied_gui = - 1"
    "currentDirectory emptied_gui = ''/pics/Sub''"
    by (simp_all add: emptied_gui_def refresh_fields f s d)
qed

lemma later_files:
  "getMediaFiles later_env emptied_gui
     = [\<lparr>name = ''a.png'', path = ''/pics/Sub/a.png'', type = File, size = 1000,
          extension = ''.png''\<rparr>]"
  by (simp add: getMediaFiles_def emptied_gui_fields later_env_def sample_env_def path_join_def
      isMediaFile_samples extname_def toLowerCase_def toLowerCase_char_def Let_def js_sort_def)

text \<open>
  C10 (the code departs from it). Refreshing the empty directory leaves selectedIndex at
  -1, as the claim says. Refreshing again once the directory holds a.png gives the
  non-empty listing [a.png] and selectedIndex = min(-1, 1 - 1) = -1, which is not within
  [0, length - 1] = [0, 0]: refresh clamps the index from above only, while
  moveSelectionGrid assigns an index only when it is at least 0 and navigateToDirectory
  resets it to 0. With that state the Enter key reads files[-1], which is undefined, and
  throws a TypeError on its path.
\<close>

theorem refresh_selectedIndex_below_range:
  "files emptied_gui = [] \<and> selectedIndex emptied_gui = - 1
   \<and> map name (files (refresh later_env emptied_gui)) = [''a.png'']
   \<and> selectedIndex (refresh later_env emptied_gui) = - 1
   \<and> handleEnterKey later_env 1000 (refresh later_env emptied_gui) = Inl TypeError"
proof -
  have f: "files (refresh later_env emptied_gui)
      = [\<lparr>name = ''a.png'', path = ''/pics/Sub/a.png'', type = File, size = 1000,
           extension = ''.png''\<rparr>]"
    by (simp add: refresh_fields later_files)
  have s: "selectedIndex (refresh later_env emptied_gui) = - 1"
    by (simp add: refresh_fields later_files emptied_gui_fields)
  have "handleEnterKey later_env 1000 (refresh later_env emptied_gui) = Inl TypeError"
    by (simp add: handleEnterKey_def f s js_nth_def)
  then show ?thesis
    using f s emptied_gui_fields by simp
qed

subsection \<open>From a selection that is not negative\<close>

text \<open>
  After refresh() rebuilds the entry list, from a state whose selectedIndex and
  scrollOffset are not negative (and with at least one display line, as the constructor
  and the resize handler set it): selectedIndex equals min(previous selectedIndex, new
  length - 1); if the new listing is non-empty it stays within [0, length - 1]; if the
  new listing is empty it becomes -1, and scrollOffset becomes 0.
\<close>

theorem refresh_from_valid_index:
  assumes "0 \<le> selectedIndex this" and "0 \<le> scrollOffset this" and "1 \<le> maxDisplayLines this"
  shows "files (refresh e this) = getMediaFiles e this
     \<and> selectedIndex (refresh e this)
         = min (selectedIndex this) (int (length (getMediaFiles e this)) - 1)
     \<and> (getMediaFiles e this \<noteq> [] \<longrightarrow>
           0 \<le> selectedIndex (refresh e this)
           \<and> selectedIndex (refresh e this) \<le> int (length (getMediaFiles e this)) - 1)
     \<and> (getMediaFiles e this = [] \<longrightarrow>
           selectedIndex (refresh e this) = - 1 \<and> scrollOffset (refresh e this) = 0)"
proof -
  have f: "files (refresh e this) = getMediaFiles e this"
    by (simp add: refresh_def Let_def render_frame)
  have s: "selectedIndex (refresh e this)
      = min (selectedIndex this) (int (length (getMediaFiles e this)) - 1)"
    by (simp add: refresh_def Let_def render_frame)
  have nonempty: "0 \<le> selectedIndex (refresh e this)
      \<and> selectedIndex (refresh e this) \<le> int (length (getMediaFiles e this)) - 1"
    if "getMediaFiles e this \<noteq> []"
  proof -
    have "0 < length (getMediaFiles e this)"
      using that by simp
    then show ?thesis
      unfolding s using assms(1) by simp
  qed
  have empty: "selectedIndex (refresh e this) = - 1 \<and> scrollOffset (refresh e this) = 0"
    if "getMediaFiles e this = []"
  proof -
    have "scrollOffset (refresh e this) = 0"
      unfolding refresh_def Let_def
      by (rule scrollOffset_render_zero) (use that assms(2,3) in simp)
    then show ?thesis
      unfolding s using that assms(1) by simp
  qed
  show ?thesis
    using f s nonempty empty by blast
qed

text \<open>
  On \<open>sample_env\<close>: with index 5 selected, refreshing \<open>/pics\<close> (two entries) selects index 1,
  and refreshing the empty directory \<open>/pics/Sub\<close> leaves index -1 and offset 0.
\<close>

theorem refresh_from_valid_index_witness:
  "0 \<le> selectedIndex (pics_gui\<lparr>selectedIndex := 5\<rparr>) \<and> 0 \<le> scrollOffset (pics_gui\<lparr>selectedIndex := 5\<rparr>)
   \<and> 1 \<le> maxDisplayLines (pics_gui\<lparr>selectedIndex := 5\<rparr>)
   \<and> map name (getMediaFiles sample_env (pics_gui\<lparr>selectedIndex := 5\<rparr>)) = [''Sub'', ''a.png'']
   \<and> selectedIndex (refresh sample_env (pics_gui\<lparr>selectedIndex := 5\<rparr>)) = 1
   \<and> getMediaFiles sample_env (pics_gui\<lparr>selectedIndex := 5, currentDirectory := ''/pics/Sub''\<rparr>) = []
   \<and> selectedIndex (refresh sample_env (pics_gui\<lparr>selectedIndex := 5, currentDirectory := ''/pics/Sub''\<rparr>)) = - 1
   \<and> scrollOffset (refresh sample_env (pics_gui\<lparr>selectedIndex := 5, currentDirectory := ''/pics/Sub''\<rparr>)) = 0"
proof -
  let ?a = "pics_gui\<lparr>selectedIndex := 5\<rparr>"
  let ?b = "pics_gui\<lparr>selectedIndex := 5, currentDirectory := ''/pics/Sub''\<rparr>"
  have pre: "0 \<le> selectedIndex ?a" "0 \<le> scrollOffset ?a" "1 \<le> maxDisplayLines ?a"
    "0 \<le> selectedIndex ?b" "0 \<le> scrollOffset ?b" "1 \<le> maxDisplayLines ?b"
    by (simp_all add: pics_gui_def navigateToDirectory_fields sample_gui_fields)
  have "length (map name (getMediaFiles sample_env ?a)) = 2"
    by (simp only: pics_files_names) simp
  then have len: "int (length (getMediaFiles sample_env ?a)) = 2"
    by simp
  have "selectedIndex (refresh sample_env ?a)
      = min (selectedIndex ?a) (int (length (getMediaFiles sample_env ?a)) - 1)"
    by (rule conjunct1 [OF conjunct2 [OF refresh_from_valid_index [OF pre(1-3)]]])
  then have a: "selectedIndex (refresh sample_env ?a) = 1"
    unfolding len by simp
  have "getMediaFiles sample_env ?b = [] \<longrightarrow>
      selectedIndex (refresh sample_env ?b) = - 1 \<and> scrollOffset (refresh sample_env ?b) = 0"
    by (rule conjunct2 [OF conjunct2 [OF conjunct2 [OF refresh_from_valid_index [OF pre(4-6)]]]])
  then have b: "selectedIndex (refresh sample_env ?b) = - 1 \<and> scrollOffset (refresh sample_env ?b) = 0"
    using sub_files_empty by (rule mp)
  show ?thesis
    using pre(1-3) pics_files_names a sub_files_empty b by (intro conjI) (simp_all only:)
qed

section \<open>Explicit scrolling in grid view\<close>

subsection \<open>The scroll offset after a step\<close>

text \<open>
  \<open>gridMaxScrollOffset\<close> is the \<open>maxScrollOffset\<close> that \<open>drawGridView\<close>, \<open>scrollGrid\<close> and
  \<open>handleScrollWheel\<close> each compute: the rows that do not fit, times the columns.
\<close>

definition gridMaxScrollOffset :: "gui \<Rightarrow> int" where
  "gridMaxScrollOffset this =
     (let dims = fst (calculateGridDimensions this);
          maxVisibleRows = js_floor_div (maxDisplayLines this) (itemHeight dims);
          actualVisibleRows = min maxVisibleRows (rows dims)
      in max 0 (rows dims - actualVisibleRows) * columns dims)"

lemma dims_cong:
  "files a = files b \<Longrightarrow> terminalWidth a = terminalWidth b \<Longrightarrow>
   fst (calculateGridDimensions a) = fst (calculateGridDimensions b)"
  by (simp add: calculateGridDimensions_def Let_def)

lemma gridMaxScrollOffset_cong:
  "files a = files b \<Longrightarrow> terminalWidth a = terminalWidth b \<Longrightarrow>
   maxDisplayLines a = maxDisplayLines b \<Longrightarrow> gridMaxScrollOffset a = gridMaxScrollOffset b"
  unfolding gridMaxScrollOffset_def by (simp add: dims_cong [of a b])

lemma gridMaxScrollOffset_nonneg: "0 \<le> gridMaxScrollOffset this"
  unfolding gridMaxScrollOffset_def Let_def
  using columns_positive [of this] by simp

lemma gridMaxScrollOffset_eq:
  assumes "calculateGridDimensions this = (dims, s)"
  shows "(rows dims - min (js_floor_div (maxDisplayLines this) (itemHeight dims)) (rows dims))
        * columns dims = gridMaxScrollOffset this"
  using assms by (simp add: gridMaxScrollOffset_def Let_def)

lemma clamp_steps:
  fixes M s :: int
  assumes "0 \<le> M"
  shows "(if (if s < 0 then 0 else s) > M then M else (if s < 0 then 0 else s)) = min M (max 0 s)"
  using assms by (simp add: min_def max_def)

lemma scrollOffset_drawGridView:
  "scrollOffset (drawGridView this) = min (gridMaxScrollOffset this) (max 0 (scrollOffset this))"
proof -
  obtain dims where d: "calculateGridDimensions this = (dims, this\<lparr>useTripleText := Some True\<rparr>)"
    using calculateGridDimensions_fst by blast
  have "scrollOffset (drawGridView this)
      = (if (if scrollOffset this < 0 then 0 else scrollOffset this) > gridMaxScrollOffset this
         then gridMaxScrollOffset this
         else (if scrollOffset this < 0 then 0 else scrollOffset this))"
    unfolding drawGridView_def d prod.case Let_def
    by (simp add: gridMaxScrollOffset_eq [OF d])
  then show ?thesis
    by (simp only: clamp_steps [OF gridMaxScrollOffset_nonneg])
qed

lemma scrollOffset_render_grid:
  assumes "viewMode this = GridView"
  shows "scrollOffset (render this) = min (gridMaxScrollOffset this) (max 0 (scrollOffset this))"
  using assms by (simp add: render_def scrollOffset_drawFooter drawFileList_def scrollOffset_drawGridView)

lemma clamp_after_step:
  fixes M s c :: int
  assumes "0 \<le> M"
  shows "min M (max 0 (max 0 (s - c))) = min M (max 0 (s + - c))"
    and "min M (max 0 (min M (s + c))) = min M (max 0 (s + c))"
  using assms by (simp_all add: min_def max_def)

text \<open>
  In grid view one explicit scroll step, by scrollGrid or by the scroll wheel, leaves
  scrollOffset at the previous offset minus (direction -1) or plus the number of columns,
  clamped to [0, maxScrollOffset]; the two handlers do the same.
\<close>

theorem scrollGrid_scrollOffset:
  assumes "viewMode this = GridView"
  shows "scrollOffset (scrollGrid direction this)
       = min (gridMaxScrollOffset this)
           (max 0 (scrollOffset this
              + (if direction = - 1 then - columns (fst (calculateGridDimensions this))
                 else columns (fst (calculateGridDimensions this)))))
     \<and> handleScrollWheel direction this = scrollGrid direction this"
proof -
  obtain dims where d: "calculateGridDimensions this = (dims, this\<lparr>useTripleText := Some True\<rparr>)"
    using calculateGridDimensions_fst by blast
  have dims: "fst (calculateGridDimensions this) = dims"
    by (simp add: d)
  define M where "M = gridMaxScrollOffset this"
  have M0: "0 \<le> M"
    unfolding M_def by (rule gridMaxScrollOffset_nonneg)
  define v where "v = (if direction = - 1 then max 0 (scrollOffset this - columns dims)
                       else min M (scrollOffset this + columns dims))"
  have after: "scrollOffset (render s) = min M (max 0 v)"
    if "viewMode s = GridView" "files s = files this" "terminalWidth s = terminalWidth this"
      "maxDisplayLines s = maxDisplayLines this" "scrollOffset s = v" for s
    using that scrollOffset_render_grid [of s] gridMaxScrollOffset_cong [of s this]
    by (simp add: M_def)
  have "scrollOffset (scrollGrid direction this) = min M (max 0 v)"
    unfolding scrollGrid_def d prod.case Let_def renderWithClear_eq
    by (rule after) (simp_all add: assms gridMaxScrollOffset_eq [OF d] v_def M_def)
  moreover have "min M (max 0 v)
      = min M (max 0 (scrollOffset this + (if direction = - 1 then - columns dims else columns dims)))"
    unfolding v_def using clamp_after_step [OF M0] by simp
  moreover have "handleScrollWheel direction this = scrollGrid direction this"
    using assms by (simp add: handleScrollWheel_def scrollGrid_def)
  ultimately show ?thesis
    by (simp add: dims M_def)
qed

subsection \<open>The selection after a step\<close>

text \<open>
  \<open>scrolled_gui\<close> is the browser in \<open>/album\<close> (ten images, grid view, 80 by 24) with the
  last entry selected and the view scrolled to the last row.
\<close>

definition scrolled_gui :: gui where
  "scrolled_gui = album_gui\<lparr>selectedIndex := 9, scrollOffset := 8\<rparr>"

lemma length_album_files: "length (files album_gui) = 10"
proof -
  have "length (map name (files album_gui)) = 10"
    unfolding album_gui_def files_navigateToDirectory album_files by simp
  then show ?thesis
    by simp
qed

lemma scrolled_gui_fields:
  "selectedIndex scrolled_gui = 9" "scrollOffset scrolled_gui = 8"
  "maxDisplayLines scrolled_gui = 19" "terminalWidth scrolled_gui = 80"
  "viewMode scrolled_gui = GridView" "scrollMode scrolled_gui = False"
  "length (files scrolled_gui) = 10"
  by (simp_all add: scrolled_gui_def album_gui_def navigateToDirectory_fields sample_gui_fields
      length_album_files [unfolded album_gui_def])

lemma scrolled_dims:
  "calculateGridDimensions scrolled_gui =
     (\<lparr>columns = 2, rows = 5, gapWidth = 2, totalWidth = 66, totalHeight = 95, itemWidth = 32,
       itemHeight = 19\<rparr>, scrolled_gui\<lparr>useTripleText := Some True\<rparr>)"
  by (simp add: calculateGridDimensions_def Let_def js_floor_div_def js_ceil_div_def
      scrolled_gui_fields)

lemma scrollGrid_scrolled:
  "scrollGrid (- 1) scrolled_gui = scrolled_gui\<lparr>useTripleText := Some True, scrollOffset := 6\<rparr>"
proof -
  have dims: "calculateGridDimensions (scrolled_gui\<lparr>useTripleText := Some True, scrollOffset := 6\<rparr>) =
     (\<lparr>columns = 2, rows = 5, gapWidth = 2, totalWidth = 66, totalHeight = 95, itemWidth = 32,
       itemHeight = 19\<rparr>, scrolled_gui\<lparr>useTripleText := Some True, scrollOffset := 6\<rparr>)"
    by (simp add: calculateGridDimensions_def Let_def js_floor_div_def js_ceil_div_def
      scrolled_gui_fields)
  have r: "renderWithClear (scrolled_gui\<lparr>useTripleText := Some True, scrollOffset := 6\<rparr>)
      = scrolled_gui\<lparr>useTripleText := Some True, scrollOffset := 6\<rparr>"
    unfolding renderWithClear_def drawFileList_def drawFooter_def drawGridView_def
    by (simp add: scrolled_gui_fields dims js_floor_div_def Let_def)
  show ?thesis
    unfolding scrollGrid_def scrolled_dims
    by (simp add: scrolled_gui_fields Let_def js_floor_div_def r)
qed

text \<open>The step up from offset 8 with 2 columns and bound 8 gives offset 6.\<close>

theorem scrollGrid_scrollOffset_witness:
  "viewMode scrolled_gui = GridView
   \<and> gridMaxScrollOffset scrolled_gui = 8
   \<and> columns (fst (calculateGridDimensions scrolled_gui)) = 2
   \<and> scrollOffset (scrollGrid (- 1) scrolled_gui) = 6
   \<and> handleScrollWheel (- 1) scrolled_gui = scrollGrid (- 1) scrolled_gui"
proof -
  have g: "viewMode scrolled_gui = GridView"
    by (rule scrolled_gui_fields)
  have m: "gridMaxScrollOffset scrolled_gui = 8"
    by (simp add: gridMaxScrollOffset_def scrolled_dims scrolled_gui_fields js_floor_div_def)
  have c: "columns (fst (calculateGridDimensions scrolled_gui)) = 2"
    by (simp add: scrolled_dims)
  show ?thesis
    using scrollGrid_scrollOffset [OF g, of "- 1"] g m c
    by (simp add: scrolled_gui_fields)
qed

text \<open>
  C5 (the code departs from it). In grid view on an 80 by 24 terminal the layout has 2
  columns and one visible row of tiles. With ten entries, entry 9 selected and
  scrollOffset 8 (entries 8 and 9 drawn), one scroll step up gives scrollOffset 6, so
  that entries 6 and 7 are drawn, and leaves selectedIndex at 9: the bound the handler
  clamps against is scrollOffset + maxDisplayLines * columns - 1 = 43, terminal lines
  taken for rows of tiles.
\<close>

theorem scrollGrid_selection_outside_rows:
  "viewMode scrolled_gui = GridView \<and> length (files scrolled_gui) = 10
   \<and> selectedIndex scrolled_gui = 9 \<and> scrollOffset scrolled_gui = 8
   \<and> gridVisibleIndices scrolled_gui = [8, 9]
   \<and> scrollOffset (scrollGrid (- 1) scrolled_gui) = 6
   \<and> selectedIndex (scrollGrid (- 1) scrolled_gui) = 9
   \<and> gridVisibleIndices (scrollGrid (- 1) scrolled_gui) = [6, 7]"
proof -
  have dims: "calculateGridDimensions (scrolled_gui\<lparr>useTripleText := Some True, scrollOffset := 6\<rparr>) =
     (\<lparr>columns = 2, rows = 5, gapWidth = 2, totalWidth = 66, totalHeight = 95, itemWidth = 32,
       itemHeight = 19\<rparr>, scrolled_gui\<lparr>useTripleText := Some True, scrollOffset := 6\<rparr>)"
    by (simp add: calculateGridDimensions_def Let_def js_floor_div_def js_ceil_div_def
      scrolled_gui_fields)
  have up: "[0..1] = [0, 1::int]" "[0..0] = [0::int]"
    by (simp_all add: upto.simps)
  have before: "gridVisibleIndices scrolled_gui = [8, 9]"
    unfolding gridVisibleIndices_def scrolled_dims
    by (simp add: scrolled_gui_fields js_floor_div_def Let_def up)
  have after: "gridVisibleIndices (scrollGrid (- 1) scrolled_gui) = [6, 7]"
    unfolding scrollGrid_scrolled gridVisibleIndices_def dims
    by (simp add: scrolled_gui_fields js_floor_div_def Let_def up)
  show ?thesis
    using before after by (simp add: scrollGrid_scrolled scrolled_gui_fields)
qed

section \<open>Activation\<close>

text \<open>
  An activation is the Enter key or a left mouse click on the selected entry; both
  handlers share \<open>lastClickTarget\<close> and \<open>lastClickTime\<close>. \<open>media_paths\<close> are the paths
  handed to the image viewer. \<open>is_open_of this item action\<close> says that \<open>action\<close> is the
  open action of \<open>item\<close>: \<open>navigateToDirectory\<close> on its path for a directory, the image
  viewer on the media files of the directory, started at the index of the item among
  them, otherwise.
\<close>

datatype activation = EnterKey | LeftClick

definition activate :: "env \<Rightarrow> activation \<Rightarrow> int \<Rightarrow> gui \<Rightarrow> js_error + gui" where
  "activate e source now this =
     (case source of
        EnterKey \<Rightarrow> handleEnterKey e now this
      | LeftClick \<Rightarrow> handleLeftMouseClick e now this)"

definition media_paths :: "gui \<Rightarrow> string list" where
  "media_paths this = map path (filter (\<lambda>item. type item = File \<and> isMediaFile (name item)) (files this))"

definition is_open_of :: "gui \<Rightarrow> entry \<Rightarrow> open_action \<Rightarrow> bool" where
  "is_open_of this item action =
     (if type item = Directory then action = NavigateToDirectory (path item)
      else (\<exists>i. indexOf (media_paths this) (path item) = Some i
                \<and> action = OpenImageViewer (media_paths this) i))"

lemma indexOf_member: "a \<in> set xs \<Longrightarrow> \<exists>i. indexOf xs a = Some i"
  by (induction xs) auto

lemma js_nth_member: "js_nth xs i = Some a \<Longrightarrow> a \<in> set xs"
  by (auto simp: js_nth_def split: if_splits)

lemma open_selected:
  assumes sel: "js_nth (files this) (selectedIndex this) = Some item"
    and kind: "type item = Directory \<or> isMediaFile (name item)"
  shows "\<exists>s action. (if type item = Directory then Inr (navigateToDirectory e (path item) this)
                     else viewSelectedFile e this) = Inr s
           \<and> opened s = opened this @ [action] \<and> is_open_of this item action
           \<and> lastClickTarget s = lastClickTarget this \<and> lastClickTime s = lastClickTime this"
proof (cases "type item = Directory")
  case True
  then show ?thesis
    by (simp add: navigateToDirectory_fields is_open_of_def)
next
  case False
  then have media: "type item = File" "isMediaFile (name item)"
    using kind by (cases "type item"; simp)+
  have "item \<in> set (files this)"
    using sel by (rule js_nth_member)
  then have "path item \<in> set (media_paths this)"
    using media by (auto simp: media_paths_def)
  then obtain i where i: "indexOf (media_paths this) (path item) = Some i"
    using indexOf_member by fastforce
  have ne: "length (files this) \<noteq> 0"
    using \<open>item \<in> set (files this)\<close> by auto
  have "viewSelectedFile e this
      = Inr (render (setupInput (this\<lparr>opened := opened this @ [OpenImageViewer (media_paths this) i]\<rparr>)))"
    using sel media ne i [unfolded media_paths_def]
    by (simp add: viewSelectedFile_def openImageViewer_def media_paths_def Let_def)
  then show ?thesis
    using False i by (simp add: render_frame setupInput_def is_open_of_def)
qed

lemma is_open_of_files: "files a = files b \<Longrightarrow> is_open_of a item action = is_open_of b item action"
  by (simp add: is_open_of_def media_paths_def)

lemma activate_records:
  assumes sel: "js_nth (files this) (selectedIndex this) = Some item"
    and unarmed: "\<not> (lastClickTarget this = Some (path item)
                    \<and> now - lastClickTime this < doubleClickThreshold this)"
  shows "\<exists>s. activate e source now this = Inr s \<and> opened s = opened this
           \<and> lastClickTarget s = Some (path item) \<and> lastClickTime s = now
           \<and> files s = files this \<and> selectedIndex s = selectedIndex this
           \<and> doubleClickThreshold s = doubleClickThreshold this"
proof -
  have ne: "length (files this) \<noteq> 0"
    using js_nth_member [OF sel] by auto
  have test: "(lastClickTarget this = Some (path item)
      \<and> now - lastClickTime this < doubleClickThreshold this) = False"
    using unarmed by simp
  show ?thesis
  proof (cases source)
    case EnterKey
    have "handleEnterKey e now this
        = Inr (render (this\<lparr>lastClickTime := now, lastClickTarget := Some (path item)\<rparr>))"
      using sel ne by (simp add: handleEnterKey_def Let_def test)
    then show ?thesis
      using EnterKey by (simp add: activate_def render_frame)
  next
    case LeftClick
    have "handleLeftMouseClick e now this
        = Inr (this\<lparr>lastClickTime := now, lastClickTarget := Some (path item)\<rparr>)"
      using sel ne by (simp add: handleLeftMouseClick_def Let_def test)
    then show ?thesis
      using LeftClick by (simp add: activate_def)
  qed
qed

lemma activate_opens:
  assumes sel: "js_nth (files this) (selectedIndex this) = Some item"
    and kind: "type item = Directory \<or> isMediaFile (name item)"
    and armed: "lastClickTarget this = Some (path item)"
      "now - lastClickTime this < doubleClickThreshold this"
  shows "\<exists>s action. activate e source now this = Inr s \<and> opened s = opened this @ [action]
           \<and> is_open_of this item action
           \<and> lastClickTarget s = None \<and> lastClickTime s = 0"
proof -
  let ?cleared = "this\<lparr>lastClickTime := 0, lastClickTarget := None\<rparr>"
  have ne: "length (files this) \<noteq> 0"
    using js_nth_member [OF sel] by auto
  have sel': "js_nth (files ?cleared) (selectedIndex ?cleared) = Some item"
    using sel by simp
  obtain s action where s:
    "(if type item = Directory then Inr (navigateToDirectory e (path item) ?cleared)
      else viewSelectedFile e ?cleared) = Inr s"
    "opened s = opened ?cleared @ [action]" "is_open_of ?cleared item action"
    "lastClickTarget s = lastClickTarget ?cleared" "lastClickTime s = lastClickTime ?cleared"
    using open_selected [OF sel' kind, of e] by blast
  have test: "(lastClickTarget this = Some (path item)
      \<and> now - lastClickTime this < doubleClickThreshold this) = True"
    using armed by simp
  have both: "handleEnterKey e now this = Inr s" "handleLeftMouseClick e now this = Inr s"
    using sel ne s(1)
    by (simp_all add: handleEnterKey_def handleLeftMouseClick_def Let_def test)
  have "activate e source now this = Inr s"
    using both by (cases source) (simp_all add: activate_def)
  moreover have "is_open_of this item action"
    using s(3) is_open_of_files [of ?cleared this] by simp
  ultimately show ?thesis
    using s(2,4,5) by auto
qed

text \<open>
  C4. For every selected entry that is a directory or a media file, and a state in which
  the threshold is 500 and no intent on that entry is pending within the window at the
  first event: two activation events (each the Enter key or a left mouse click) at times
  t1 and t2 on that entry. The first only records intent (lastClickTarget = the entry's
  path, lastClickTime = t1) and opens nothing. If the times are less than 500 apart the
  second performs exactly one open action (navigateToDirectory for a directory, the image
  viewer on the media files of the directory, started at the entry, for a media file) and
  clears the intent; if t2 - t1 is at least 500 (600 for one) the second only records
  intent again and nothing is opened.
\<close>

theorem double_activation:
  assumes "js_nth (files this) (selectedIndex this) = Some item"
    and "type item = Directory \<or> isMediaFile (name item)"
    and "doubleClickThreshold this = 500"
    and "\<not> (lastClickTarget this = Some (path item) \<and> t1 - lastClickTime this < 500)"
  shows "\<exists>s1. activate e a1 t1 this = Inr s1 \<and> opened s1 = opened this
           \<and> lastClickTarget s1 = Some (path item) \<and> lastClickTime s1 = t1
           \<and> js_nth (files s1) (selectedIndex s1) = Some item
           \<and> (\<bar>t2 - t1\<bar> < 500 \<longrightarrow>
                (\<exists>s2 action. activate e a2 t2 s1 = Inr s2 \<and> opened s2 = opened this @ [action]
                    \<and> is_open_of this item action
                    \<and> lastClickTarget s2 = None \<and> lastClickTime s2 = 0))
           \<and> (t2 - t1 \<ge> 500 \<longrightarrow>
                (\<exists>s2. activate e a2 t2 s1 = Inr s2 \<and> opened s2 = opened this
                    \<and> lastClickTarget s2 = Some (path item) \<and> lastClickTime s2 = t2))"
proof -
  obtain s1 where s1: "activate e a1 t1 this = Inr s1" "opened s1 = opened this"
    "lastClickTarget s1 = Some (path item)" "lastClickTime s1 = t1"
    "files s1 = files this" "selectedIndex s1 = selectedIndex this"
    "doubleClickThreshold s1 = doubleClickThreshold this"
    using activate_records [OF assms(1), of t1 e a1] assms(3,4) by auto
  have sel1: "js_nth (files s1) (selectedIndex s1) = Some item"
    using assms(1) s1(5,6) by simp
  have close: "\<exists>s2 action. activate e a2 t2 s1 = Inr s2 \<and> opened s2 = opened this @ [action]
      \<and> is_open_of this item action \<and> lastClickTarget s2 = None \<and> lastClickTime s2 = 0"
    if "\<bar>t2 - t1\<bar> < 500"
  proof -
    have "t2 - lastClickTime s1 < doubleClickThreshold s1"
      using that s1(4,7) assms(3) by simp
    then show ?thesis
      using activate_opens [OF sel1 assms(2) s1(3), of t2 e a2] s1(2)
        is_open_of_files [OF s1(5), of item]
      by auto
  qed
  have far: "\<exists>s2. activate e a2 t2 s1 = Inr s2 \<and> opened s2 = opened this
      \<and> lastClickTarget s2 = Some (path item) \<and> lastClickTime s2 = t2"
    if "t2 - t1 \<ge> 500"
  proof -
    have "\<not> (lastClickTarget s1 = Some (path item) \<and> t2 - lastClickTime s1 < doubleClickThreshold s1)"
      using that s1(4,7) assms(3) by simp
    then show ?thesis
      using activate_records [OF sel1, of t2 e a2] s1(2) by auto
  qed
  show ?thesis
    using s1(1-4) sel1 close far by blast
qed

subsection \<open>The entries of \<open>/pics\<close>\<close>

definition sub_entry :: entry where
  "sub_entry = \<lparr>name = ''Sub'', path = ''/pics/Sub'', type = Directory, size = 0, extension = ''''\<rparr>"

definition png_entry :: entry where
  "png_entry = \<lparr>name = ''a.png'', path = ''/pics/a.png'', type = File, size = 1000,
     extension = ''.png''\<rparr>"

lemma pics_files: "files pics_gui = [sub_entry, png_entry]"
  unfolding pics_gui_def files_navigateToDirectory
  by (simp add: getMediaFiles_def sample_env_def path_join_def isMediaFile_def extname_def
      toLowerCase_def toLowerCase_char_def SUPPORTED_EXTENSIONS_def Let_def js_sort_def
      compareItems_def sub_entry_def png_entry_def)

lemma pics_gui_fields:
  "selectedIndex pics_gui = 0" "lastClickTarget pics_gui = None" "lastClickTime pics_gui = 0"
  "doubleClickThreshold pics_gui = 500" "opened pics_gui = [NavigateToDirectory ''/pics'']"
  by (simp_all add: pics_gui_def navigateToDirectory_fields sample_gui_fields)

text \<open>
  In \<open>/pics\<close> with the directory \<open>Sub\<close> selected: Enter at 1000 and a click at 1300 navigate
  into \<open>/pics/Sub\<close> once; Enter at 1000 and a click at 1600 open nothing.
\<close>

theorem double_activation_witness:
  "js_nth (files pics_gui) (selectedIndex pics_gui) = Some sub_entry
   \<and> type sub_entry = Directory \<and> doubleClickThreshold pics_gui = 500
   \<and> lastClickTarget pics_gui = None
   \<and> (\<exists>s1. activate sample_env EnterKey 1000 pics_gui = Inr s1
          \<and> opened s1 = opened pics_gui \<and> lastClickTarget s1 = Some ''/pics/Sub''
          \<and> lastClickTime s1 = 1000
          \<and> (\<exists>s2. activate sample_env LeftClick 1300 s1 = Inr s2
                 \<and> opened s2 = opened pics_gui @ [NavigateToDirectory ''/pics/Sub'']
                 \<and> lastClickTarget s2 = None \<and> lastClickTime s2 = 0)
          \<and> (\<exists>s2. activate sample_env LeftClick 1600 s1 = Inr s2
                 \<and> opened s2 = opened pics_gui
                 \<and> lastClickTarget s2 = Some ''/pics/Sub'' \<and> lastClickTime s2 = 1600))"
proof -
  have sel: "js_nth (files pics_gui) (selectedIndex pics_gui) = Some sub_entry"
    by (simp add: pics_files pics_gui_fields js_nth_def)
  have kind: "type sub_entry = Directory \<or> isMediaFile (name sub_entry)"
    by (simp add: sub_entry_def)
  have thr: "doubleClickThreshold pics_gui = 500"
    by (rule pics_gui_fields)
  have fresh: "\<not> (lastClickTarget pics_gui = Some (path sub_entry) \<and> 1000 - lastClickTime pics_gui < 500)"
    by (simp add: pics_gui_fields)
  have p: "path sub_entry = ''/pics/Sub''" "type sub_entry = Directory"
    by (simp_all add: sub_entry_def)
  obtain s1 where s1: "activate sample_env EnterKey 1000 pics_gui = Inr s1"
      "opened s1 = opened pics_gui" "lastClickTarget s1 = Some (path sub_entry)"
      "lastClickTime s1 = 1000"
    and near: "\<bar>1300 - 1000\<bar> < (500::int) \<longrightarrow>
        (\<exists>s2 action. activate sample_env LeftClick 1300 s1 = Inr s2
            \<and> opened s2 = opened pics_gui @ [action] \<and> is_open_of pics_gui sub_entry action
            \<and> lastClickTarget s2 = None \<and> lastClickTime s2 = 0)"
    using double_activation [OF sel kind thr fresh, where e = sample_env and ?a1.0 = EnterKey and ?a2.0 = LeftClick and ?t2.0 = 1300] by blast
  obtain s1' where s1': "activate sample_env EnterKey 1000 pics_gui = Inr s1'"
    and far: "(1600::int) - 1000 \<ge> 500 \<longrightarrow>
        (\<exists>s2. activate sample_env LeftClick 1600 s1' = Inr s2 \<and> opened s2 = opened pics_gui
            \<and> lastClickTarget s2 = Some (path sub_entry) \<and> lastClickTime s2 = 1600)"
    using double_activation [OF sel kind thr fresh, where e = sample_env and ?a1.0 = EnterKey and ?a2.0 = LeftClick and ?t2.0 = 1600] by blast
  have same: "s1' = s1"
    using s1(1) s1' by simp
  have a: "\<exists>s2. activate sample_env LeftClick 1300 s1 = Inr s2
      \<and> opened s2 = opened pics_gui @ [NavigateToDirectory ''/pics/Sub'']
      \<and> lastClickTarget s2 = None \<and> lastClickTime s2 = 0"
    using near by (auto simp: is_open_of_def p)
  have b: "\<exists>s2. activate sample_env LeftClick 1600 s1 = Inr s2 \<and> opened s2 = opened pics_gui
      \<and> lastClickTarget s2 = Some ''/pics/Sub'' \<and> lastClickTime s2 = 1600"
    using far same by (simp add: p)
  show ?thesis
    using sel p(2) thr pics_gui_fields(2) s1 a b by (auto simp: p)
qed

section \<open>Mouse reports\<close>

subsection \<open>Decimal numerals read back by \<open>parseInt\<close>\<close>

definition decimal_digit :: "char \<Rightarrow> bool" where
  "decimal_digit c \<longleftrightarrow> c \<in> set ''0123456789''"

lemma digit_char_digit: "d < 10 \<Longrightarrow> decimal_digit (digit_char d)"
proof -
  assume "d < 10"
  then have "d \<in> {0, 1, 2, 3, 4, 5, 6, 7, 8, 9}"
    by auto
  then show ?thesis
    by (auto simp: decimal_digit_def digit_char_def)
qed

lemma digit_value_digit_char: "d < 10 \<Longrightarrow> digit_value 10 (digit_char d) = Some d"
proof -
  assume "d < 10"
  then have "d \<in> {0, 1, 2, 3, 4, 5, 6, 7, 8, 9}"
    by auto
  then show ?thesis
    by (auto simp: digit_value_def digit_char_def)
qed

lemma decimal_digit_facts:
  assumes "decimal_digit c"
  shows "\<not> isWhiteSpace c" "c \<noteq> CHR ''-''" "c \<noteq> CHR ''+''" "c \<noteq> CHR ''x''" "c \<noteq> CHR ''X''"
    "c \<noteq> CHR '';''" "c \<noteq> CHR ''M''" "c \<noteq> ESC" "digit_value 10 c \<noteq> None"
  using assms by (auto simp: decimal_digit_def isWhiteSpace_def digit_value_def ESC_def)

lemma decimal_digits: "c \<in> set (decimal n) \<Longrightarrow> decimal_digit c"
proof (induction n arbitrary: c rule: decimal.induct)
  case (1 n)
  show ?case
  proof (cases "n < 10")
    case True
    then show ?thesis
      using "1.prems" by (simp add: decimal.simps [of n] digit_char_digit)
  next
    case False
    then show ?thesis
      using "1.prems" "1.IH" by (auto simp: decimal.simps [of n] digit_char_digit)
  qed
qed

lemma decimal_not_empty: "decimal n \<noteq> []"
  by (subst decimal.simps) simp

lemma digits_value_snoc:
  "digits_value r (ds @ [c]) =
     (case digit_value r c of None \<Rightarrow> digits_value r ds | Some d \<Rightarrow> digits_value r ds * r + d)"
  by (simp add: digits_value_def split: option.split)

lemma digits_value_decimal: "digits_value 10 (decimal n) = n"
proof (induction n rule: decimal.induct)
  case (1 n)
  show ?case
  proof (cases "n < 10")
    case True
    then show ?thesis
      by (simp add: decimal.simps [of n] digits_value_def digit_value_digit_char)
  next
    case False
    then have "digits_value 10 (decimal n) = digits_value 10 (decimal (n div 10)) * 10 + n mod 10"
      by (simp add: decimal.simps [of n] digits_value_snoc digit_value_digit_char)
    then show ?thesis
      using "1.IH" False by simp
  qed
qed

lemma parseInt_decimal: "parseInt (decimal n) = Some (int n)"
proof -
  obtain c cs where d: "decimal n = c # cs"
    using decimal_not_empty [of n] by (cases "decimal n") auto
  have c: "decimal_digit c"
    using decimal_digits [of c n] d by simp
  have s1: "dropWhile isWhiteSpace (decimal n) = decimal n"
    using decimal_digit_facts(1) [OF c] d by simp
  have sign: "take 1 (decimal n) \<noteq> ''-''" "take 1 (decimal n) \<noteq> ''+''"
    using decimal_digit_facts(2,3) [OF c] d by simp_all
  have prefix: "take 2 (decimal n) \<noteq> ''0x''" "take 2 (decimal n) \<noteq> ''0X''"
  proof -
    show "take 2 (decimal n) \<noteq> ''0x''"
    proof (cases cs)
      case Nil
      then show ?thesis using d by simp
    next
      case (Cons c' cs')
      then have "decimal_digit c'"
        using decimal_digits [of c' n] d by simp
      then show ?thesis
        using decimal_digit_facts(4) d Cons by auto
    qed
    show "take 2 (decimal n) \<noteq> ''0X''"
    proof (cases cs)
      case Nil
      then show ?thesis using d by simp
    next
      case (Cons c' cs')
      then have "decimal_digit c'"
        using decimal_digits [of c' n] d by simp
      then show ?thesis
        using decimal_digit_facts(5) d Cons by auto
    qed
  qed
  have z: "takeWhile (\<lambda>c. digit_value 10 c \<noteq> None) (decimal n) = decimal n"
    using decimal_digits decimal_digit_facts(9) by (simp add: takeWhile_eq_all_conv)
  have z': "takeWhile (\<lambda>c. \<exists>y. digit_value 10 c = Some y) (decimal n) = decimal n"
    using z by simp
  show ?thesis
    unfolding parseInt_def s1 Let_def
    using sign prefix decimal_not_empty [of n] by (simp add: z' digits_value_decimal)
qed

lemma js_split_no_separator: "sep \<notin> set a \<Longrightarrow> js_split sep a = [a]"
  by (induction a) auto

lemma js_split_append:
  "sep \<notin> set a \<Longrightarrow> js_split sep (a @ sep # rest) = a # js_split sep rest"
proof (induction a)
  case Nil
  then show ?case by simp
next
  case (Cons c a)
  then show ?case by auto
qed

subsection \<open>The two report formats\<close>

text \<open>
  \<open>fixed_report b x y\<close> is the six-character report: escape, \<open>[\<close>, \<open>M\<close> and three
  characters (a byte below 128 of the terminal's stream arrives as the character of that
  code). \<open>parameter_report p1 p2 p3\<close> is the variable report: escape, \<open>[\<close>, three decimal
  parameters separated by semicolons, and \<open>M\<close>.
\<close>

definition fixed_report :: "char \<Rightarrow> char \<Rightarrow> char \<Rightarrow> string" where
  "fixed_report b x y = ESC # ''[M'' @ [b, x, y]"

definition parameter_report :: "nat \<Rightarrow> nat \<Rightarrow> nat \<Rightarrow> string" where
  "parameter_report p1 p2 p3 =
     ESC # ''['' @ decimal p1 @ '';'' @ decimal p2 @ '';'' @ decimal p3 @ ''M''"

lemma decodeMouse_fixed:
  "decodeMouse (fixed_report b x y)
     = Some (Some (of_char b - 32), Some (of_char x - 32), Some (of_char y - 32))"
  by (simp add: decodeMouse_def fixed_report_def startsWith_def charCodeAt_def js_minus_def)

lemma decimal_no_char:
  "CHR '';'' \<notin> set (decimal n)" "CHR ''M'' \<notin> set (decimal n)"
  using decimal_digits [of _ n] decimal_digit_facts(6,7) by blast+

lemma decodeMouse_parameters:
  "decodeMouse (parameter_report p1 p2 p3)
     = Some (Some (int p1 - 32), Some (int p2 - 32), Some (int p3 - 32))"
proof -
  let ?d = "parameter_report p1 p2 p3"
  obtain c cs where d1: "decimal p1 = c # cs"
    using decimal_not_empty [of p1] by (cases "decimal p1") auto
  have "decimal_digit c"
    using decimal_digits [of c p1] d1 by simp
  then have c: "c \<noteq> CHR ''M''"
    by (rule decimal_digit_facts(7))
  have not_fixed: "\<not> startsWith ?d (ESC # ''[M'')"
    using c by (simp add: startsWith_def parameter_report_def d1)
  have csi: "startsWith ?d (ESC # ''['')"
    by (simp add: startsWith_def parameter_report_def)
  have m: "includes_char ?d CHR ''M''"
    by (simp add: includes_char_def parameter_report_def)
  have "butlast ?d = ESC # ''['' @ decimal p1 @ '';'' @ decimal p2 @ '';'' @ decimal p3"
    unfolding parameter_report_def
    by (simp add: butlast_append)
  then have slice: "slice_2_minus1 ?d = decimal p1 @ CHR '';'' # decimal p2 @ CHR '';'' # decimal p3"
    by (simp add: slice_2_minus1_def)
  have parts: "js_split CHR '';'' (slice_2_minus1 ?d) = [decimal p1, decimal p2, decimal p3]"
    unfolding slice
    by (simp add: js_split_append js_split_no_separator decimal_no_char)
  show ?thesis
    unfolding decodeMouse_def
    using not_fixed csi m
    by (simp add: parts parseInt_decimal js_minus_def Let_def)
qed

lemma handleMouseEvent_scroll:
  assumes "decodeMouse d = Some (Some b, x, y)"
  shows "b = 64 \<or> b = 96 \<Longrightarrow> handleMouseEvent e now d this = handleScrollWheel (- 1) this"
    and "b = 65 \<or> b = 97 \<Longrightarrow> handleMouseEvent e now d this = handleScrollWheel 1 this"
  using assms by (auto simp: handleMouseEvent_def)

text \<open>
  C6. Decoding the six-character report gives button, x and y equal to each character
  code minus 32, so that the codes (35, 33, 34) give button 3, x 1, y 2; decoding the
  variable report with decimal parameters (below 2 ^ 53, where a JavaScript number is
  exact) gives each parameter minus 32; and a report whose button decodes to 64 and one
  whose button decodes to 96 both do what handleScrollWheel(-1) does, as 65 and 97 both
  do what handleScrollWheel(1) does, whatever their coordinates.
\<close>

theorem mouse_decoding:
  "decodeMouse (fixed_report b x y)
     = Some (Some (of_char b - 32), Some (of_char x - 32), Some (of_char y - 32))
   \<and> decodeMouse (fixed_report (CHR 35) (CHR 33) (CHR 34)) = Some (Some 3, Some 1, Some 2)
   \<and> (p1 < 2 ^ 53 \<and> p2 < 2 ^ 53 \<and> p3 < 2 ^ 53 \<longrightarrow>
        decodeMouse (parameter_report p1 p2 p3)
          = Some (Some (int p1 - 32), Some (int p2 - 32), Some (int p3 - 32)))
   \<and> (decodeMouse d = Some (Some 64, x1, y1) \<and> decodeMouse d' = Some (Some 96, x2, y2) \<longrightarrow>
        handleMouseEvent e now d this = handleScrollWheel (- 1) this
        \<and> handleMouseEvent e now' d' this = handleScrollWheel (- 1) this)
   \<and> (decodeMouse d = Some (Some 65, x1, y1) \<and> decodeMouse d' = Some (Some 97, x2, y2) \<longrightarrow>
        handleMouseEvent e now d this = handleScrollWheel 1 this
        \<and> handleMouseEvent e now' d' this = handleScrollWheel 1 this)"
proof -
  have ex: "decodeMouse (fixed_report (CHR 35) (CHR 33) (CHR 34)) = Some (Some 3, Some 1, Some 2)"
    unfolding decodeMouse_fixed by simp
  show ?thesis
    using decodeMouse_fixed ex decodeMouse_parameters handleMouseEvent_scroll
    by (intro conjI impI; (elim conjE)?) (simp_all add: handleMouseEvent_def)
qed

text \<open>
  The report \<open>ESC [ 96;40;50 M\<close> decodes to button 64 at (8, 18); the fixed report with
  code 96 and the variable report with parameter 128 (buttons 64 and 96) both scroll up,
  those with 97 and 129 (buttons 65 and 97) both scroll down.
\<close>

theorem mouse_decoding_witness:
  "(96::nat) < 2 ^ 53 \<and> (40::nat) < 2 ^ 53 \<and> (50::nat) < 2 ^ 53
   \<and> parameter_report 96 40 50 = ESC # ''[96;40;50M''
   \<and> decodeMouse (ESC # ''[96;40;50M'') = Some (Some 64, Some 8, Some 18)
   \<and> decodeMouse (fixed_report (CHR 96) (CHR 33) (CHR 34)) = Some (Some 64, Some 1, Some 2)
   \<and> decodeMouse (parameter_report 128 40 50) = Some (Some 96, Some 8, Some 18)
   \<and> handleMouseEvent sample_env 0 (fixed_report (CHR 96) (CHR 33) (CHR 34)) scrolled_gui
        = handleScrollWheel (- 1) scrolled_gui
   \<and> handleMouseEvent sample_env 0 (parameter_report 128 40 50) scrolled_gui
        = handleScrollWheel (- 1) scrolled_gui
   \<and> decodeMouse (fixed_report (CHR 97) (CHR 33) (CHR 34)) = Some (Some 65, Some 1, Some 2)
   \<and> decodeMouse (parameter_report 129 40 50) = Some (Some 97, Some 8, Some 18)
   \<and> handleMouseEvent sample_env 0 (fixed_report (CHR 97) (CHR 33) (CHR 34)) scrolled_gui
        = handleScrollWheel 1 scrolled_gui
   \<and> handleMouseEvent sample_env 0 (parameter_report 129 40 50) scrolled_gui
        = handleScrollWheel 1 scrolled_gui"
proof -
  have lit: "parameter_report 96 40 50 = ESC # ''[96;40;50M''"
    by (simp add: parameter_report_def decimal.simps digit_char_def)
  have range: "(96::nat) < 2 ^ 53" "(40::nat) < 2 ^ 53" "(50::nat) < 2 ^ 53"
    "(128::nat) < 2 ^ 53" "(129::nat) < 2 ^ 53"
    by simp_all
  note up = mouse_decoding [where b = "CHR 96" and x = "CHR 33" and y = "CHR 34"
      and ?p1.0 = 96 and ?p2.0 = 40 and ?p3.0 = 50
      and d = "fixed_report (CHR 96) (CHR 33) (CHR 34)" and ?x1.0 = "Some 1" and ?y1.0 = "Some 2"
      and d' = "parameter_report 128 40 50" and ?x2.0 = "Some 8" and ?y2.0 = "Some 18"
      and e = sample_env and now = 0 and now' = 0 and this = scrolled_gui]
  note far = mouse_decoding [where b = "CHR 96" and x = "CHR 33" and y = "CHR 34"
      and ?p1.0 = 128 and ?p2.0 = 40 and ?p3.0 = 50
      and d = "fixed_report (CHR 96) (CHR 33) (CHR 34)" and ?x1.0 = "Some 1" and ?y1.0 = "Some 2"
      and d' = "parameter_report 128 40 50" and ?x2.0 = "Some 8" and ?y2.0 = "Some 18"
      and e = sample_env and now = 0 and now' = 0 and this = scrolled_gui]
  note down = mouse_decoding [where b = "CHR 97" and x = "CHR 33" and y = "CHR 34"
      and ?p1.0 = 129 and ?p2.0 = 40 and ?p3.0 = 50
      and d = "fixed_report (CHR 97) (CHR 33) (CHR 34)" and ?x1.0 = "Some 1" and ?y1.0 = "Some 2"
      and d' = "parameter_report 129 40 50" and ?x2.0 = "Some 8" and ?y2.0 = "Some 18"
      and e = sample_env and now = 0 and now' = 0 and this = scrolled_gui]
  have f64: "decodeMouse (fixed_report (CHR 96) (CHR 33) (CHR 34)) = Some (Some 64, Some 1, Some 2)"
    using up by simp
  have p64: "decodeMouse (parameter_report 96 40 50) = Some (Some 64, Some 8, Some 18)"
    using up range by simp
  have p96: "decodeMouse (parameter_report 128 40 50) = Some (Some 96, Some 8, Some 18)"
    using far range by simp
  have f65: "decodeMouse (fixed_report (CHR 97) (CHR 33) (CHR 34)) = Some (Some 65, Some 1, Some 2)"
    using down by simp
  have p97: "decodeMouse (parameter_report 129 40 50) = Some (Some 97, Some 8, Some 18)"
    using down range by simp
  have scroll_up: "handleMouseEvent sample_env 0 (fixed_report (CHR 96) (CHR 33) (CHR 34)) scrolled_gui
        = handleScrollWheel (- 1) scrolled_gui"
    "handleMouseEvent sample_env 0 (parameter_report 128 40 50) scrolled_gui
        = handleScrollWheel (- 1) scrolled_gui"
    using up f64 p96 by blast+
  have scroll_down: "handleMouseEvent sample_env 0 (fixed_report (CHR 97) (CHR 33) (CHR 34)) scrolled_gui
        = handleScrollWheel 1 scrolled_gui"
    "handleMouseEvent sample_env 0 (parameter_report 129 40 50) scrolled_gui
        = handleScrollWheel 1 scrolled_gui"
    using down f65 p97 by blast+
  show ?thesis
    using range(1-3) lit p64 [unfolded lit] f64 p96 scroll_up f65 p97 scroll_down
    by (intro conjI) (simp_all only:)
qed

end
